theory Spec2Isabelle
  imports Main "HOL-Library.Multiset"
begin

section \<open>Memory, configuration and allocator state\<close>

text \<open>
  The pool allocator of \<^verbatim>\<open>PoolMemoryAllocator.cpp\<close> works on raw memory through
  \<^verbatim>\<open>MemElem\<close> pointers, a struct whose only field is \<^verbatim>\<open>m_next\<close>. An address
  is the number of a pointer-sized word, so that \<^verbatim>\<open>p + nWords\<close> on a \<^verbatim>\<open>MemElemPtr\<close>
  is addition; the memory maps every word to the pointer stored there, and
  \<^verbatim>\<open>nullptr\<close> is \<open>None\<close>.
\<close>

type_synonym addr = nat

type_synonym ptr = "addr option"

type_synonym memory = "addr \<Rightarrow> ptr"

datatype error = NullDeref | OutOfRange | AssertFailed | UninitRead | BufferOverflow

text \<open>
  The C++ type \<^verbatim>\<open>int\<close> has 32 bits and \<^verbatim>\<open>size_t\<close> has 64, as on the machines
  with pointers of eight bytes. A value of type \<^verbatim>\<open>int\<close> is an \<open>int\<close> here and a value
  of type \<^verbatim>\<open>size_t\<close> a \<open>nat\<close>, and every operation of the source whose result can
  leave the range of its type has the wrap-around written out. \<open>wrapInt\<close> is the
  two's-complement result of an operation on \<^verbatim>\<open>int\<close> (signed overflow is undefined in
  C++; this is what the compiled code computes), \<open>toSize\<close> is the conversion of an
  \<^verbatim>\<open>int\<close> to \<^verbatim>\<open>size_t\<close>, and \<open>addSize\<close> and \<open>mulSize\<close> are \<open>+\<close> and \<open>*\<close> on
  \<^verbatim>\<open>size_t\<close>.
\<close>

definition wrapInt :: "int \<Rightarrow> int" where
  "wrapInt i = (i + 2 ^ 31) mod 2 ^ 32 - 2 ^ 31"

definition toSize :: "int \<Rightarrow> nat" where
  "toSize i = nat (i mod 2 ^ 64)"

definition addSize :: "nat \<Rightarrow> nat \<Rightarrow> nat" where
  "addSize a b = (a + b) mod 2 ^ 64"

definition mulSize :: "nat \<Rightarrow> nat \<Rightarrow> nat" where
  "mulSize a b = (a * b) mod 2 ^ 64"

text \<open>
  The header that declares the class is not part of the sources at hand; its
  enumeration constants and the two build switches are the fields of a configuration.
  \<open>ptrSize\<close> is \<^verbatim>\<open>OGDF_SIZEOF_POINTER\<close>, \<open>debug\<close> is \<^verbatim>\<open>OGDF_DEBUG\<close> and \<open>nts\<close> is
  \<^verbatim>\<open>OGDF_MEMORY_POOL_NTS\<close>.
\<close>

record config =
  eTableSize :: nat
  eBlockSize :: nat
  eMinBytes :: nat
  ptrSize :: nat
  debug :: bool
  nts :: bool

record PoolElement =
  m_gp :: ptr
  m_size :: int

text \<open>
  \<open>s_tp\<close> is the table of the calling thread; the model follows one thread, so
  \<^verbatim>\<open>enterCS\<close> and \<^verbatim>\<open>leaveCS\<close> have no effect in it.
\<close>

record pool_state =
  mem :: memory
  s_tp :: "nat \<Rightarrow> ptr"
  s_pool :: "nat \<Rightarrow> PoolElement"
  s_blocks :: ptr
  s_nettoAlloc :: nat

definition init_state :: "memory \<Rightarrow> pool_state" where
  "init_state m = \<lparr>mem = m, s_tp = (\<lambda>_. None),
     s_pool = (\<lambda>_. \<lparr>m_gp = None, m_size = 0\<rparr>), s_blocks = None, s_nettoAlloc = 0\<rparr>"

text \<open>
  A \<^verbatim>\<open>BlockChain\<close> is \<^verbatim>\<open>eBlockSize - sizeof(void*)\<close> bytes of fill followed by its
  \<^verbatim>\<open>m_next\<close>: the link of the block at \<open>b\<close> is the word at this offset.
\<close>

definition blockLink :: "config \<Rightarrow> addr \<Rightarrow> addr" where
  "blockLink cfg b = b + (eBlockSize cfg - ptrSize cfg) div ptrSize cfg"

text \<open>
  Modelled from the spec: \<^verbatim>\<open>slicesPerBlock\<close> is declared in the missing header. The
  per-slice word count is the size rounded up to whole pointer words, and the slice count
  is the block's byte capacity (the fill of a \<^verbatim>\<open>BlockChain\<close>) divided by the aligned
  element size, floored. The result is the pair (slice count, word count).
\<close>

definition slicesPerBlock :: "config \<Rightarrow> nat \<Rightarrow> nat \<times> nat" where
  "slicesPerBlock cfg nBytes =
     (let nWords = (nBytes + ptrSize cfg - 1) div ptrSize cfg
      in ((eBlockSize cfg - ptrSize cfg) div (nWords * ptrSize cfg), nWords))"

section \<open>The operations\<close>

subsection \<open>Blocks and slices\<close>

text \<open>
  \<^verbatim>\<open>malloc\<close> belongs to the block provider, which the allocator treats as infallible:
  the address it returns is the argument \<open>blk\<close> of every operation that may call it.
\<close>

definition allocateBlock :: "config \<Rightarrow> pool_state \<Rightarrow> addr \<Rightarrow> pool_state" where
  "allocateBlock cfg st blk =
     st\<lparr>mem := (mem st)(blockLink cfg blk := s_blocks st), s_blocks := Some blk\<rparr>"

text \<open>
  The \<^verbatim>\<open>do ... while(--nSlices > 1)\<close> loop: the body runs before the first test, so
  it runs once also for \<open>nSlices \<le> 1\<close>.
\<close>

fun makeSlices :: "memory \<Rightarrow> addr \<Rightarrow> nat \<Rightarrow> nat \<Rightarrow> memory" where
  "makeSlices m pBlock nWords nSlices =
     (let m' = m(pBlock := Some (pBlock + nWords));
          pBlock' = pBlock + nWords
      in if nSlices - 1 > 1 then makeSlices m' pBlock' nWords (nSlices - 1)
         else m'(pBlock' := None))"

declare makeSlices.simps [simp del]

subsection \<open>The fast path and the refill\<close>

text \<open>
  \<open>advance m p k\<close> is \<^verbatim>\<open>p = p->m_next\<close> done \<open>k\<close> times; following a null pointer
  is the error \<open>NullDeref\<close>.
\<close>

fun advance :: "memory \<Rightarrow> ptr \<Rightarrow> nat \<Rightarrow> error + ptr" where
  "advance m p 0 = Inr p"
| "advance m p (Suc k) = (case p of None \<Rightarrow> Inl NullDeref | Some a \<Rightarrow> advance m (m a) k)"

text \<open>
  The last three lines of \<^verbatim>\<open>fillPool\<close>: \<^verbatim>\<open>p = pFreeBytes; pFreeBytes = p->m_next;
  return p\<close>, where \<^verbatim>\<open>pFreeBytes\<close> is the reference to \<open>s_tp[idx]\<close>.
\<close>

definition popHead :: "pool_state \<Rightarrow> nat \<Rightarrow> error + (addr \<times> pool_state)" where
  "popHead st idx =
     (case s_tp st idx of
        None \<Rightarrow> Inl NullDeref
      | Some p \<Rightarrow> Inr (p, st\<lparr>s_tp := (s_tp st)(idx := mem st p)\<rparr>))"

text \<open>
  The debug counter of the words carved from blocks:
  \<^verbatim>\<open>s_nettoAlloc += nWords * nSlices\<close>, compiled only under \<^verbatim>\<open>OGDF_DEBUG\<close>. The
  product is one of two \<^verbatim>\<open>int\<close>s and the counter is a \<^verbatim>\<open>size_t\<close>.
\<close>

definition carve :: "config \<Rightarrow> pool_state \<Rightarrow> nat \<Rightarrow> nat \<Rightarrow> pool_state" where
  "carve cfg st nWords nSlices =
     (if debug cfg
      then st\<lparr>s_nettoAlloc :=
                addSize (s_nettoAlloc st) (toSize (wrapInt (int nWords * int nSlices)))\<rparr>
      else st)"

text \<open>
  \<^verbatim>\<open>fillPool(pFreeBytes, nBytes)\<close>: \<open>idx\<close> is the table entry that \<^verbatim>\<open>pFreeBytes\<close>
  refers to, \<open>nBytes\<close> the \<^verbatim>\<open>uint16_t\<close> argument.
\<close>

definition fillPool ::
  "config \<Rightarrow> pool_state \<Rightarrow> nat \<Rightarrow> nat \<Rightarrow> addr \<Rightarrow> error + (addr \<times> pool_state)" where
  "fillPool cfg st idx nBytes blk =
     (let (nSlices, nWords) = slicesPerBlock cfg (max nBytes (eMinBytes cfg mod 65536))
      in if nts cfg then
           (let st1 = allocateBlock cfg st blk;
                st2 = st1\<lparr>s_tp := (s_tp st1)(idx := Some blk)\<rparr>;
                st3 = carve cfg st2 nWords nSlices;
                st4 = st3\<lparr>mem := makeSlices (mem st3) blk nWords nSlices\<rparr>
            in popHead st4 idx)
         else if eTableSize cfg \<le> nBytes then Inl OutOfRange
         else
           (let pe = s_pool st nBytes
            in if int nSlices \<le> m_size pe then
                 (let st1 = st\<lparr>s_tp := (s_tp st)(idx := m_gp pe)\<rparr>
                  in case advance (mem st1) (m_gp pe) (nSlices - 1) of
                       Inl e \<Rightarrow> Inl e
                     | Inr None \<Rightarrow> Inl NullDeref
                     | Inr (Some p) \<Rightarrow>
                         (let st2 = st1\<lparr>s_pool := (s_pool st1)
                                     (nBytes := \<lparr>m_gp = mem st1 p,
                                                 m_size = wrapInt (m_size pe - int nSlices)\<rparr>)\<rparr>;
                              st3 = st2\<lparr>mem := (mem st2)(p := None)\<rparr>
                          in popHead st3 idx))
               else
                 (let st1 = allocateBlock cfg st blk;
                      st2 = st1\<lparr>s_tp := (s_tp st1)(idx := Some blk)\<rparr>;
                      st3 = carve cfg st2 nWords nSlices;
                      st4 = st3\<lparr>mem := makeSlices (mem st3) blk nWords nSlices\<rparr>
                  in popHead st4 idx)))"

text \<open>
  Indexing a table at or beyond \<^verbatim>\<open>eTableSize\<close> is undefined in C++; the model
  reports \<open>OutOfRange\<close>. \<^verbatim>\<open>uint16_t(nBytes)\<close> is the remainder modulo \<open>65536\<close>.
\<close>

definition allocate ::
  "config \<Rightarrow> pool_state \<Rightarrow> nat \<Rightarrow> addr \<Rightarrow> error + (addr \<times> pool_state)" where
  "allocate cfg st nBytes blk =
     (if eTableSize cfg \<le> nBytes then Inl OutOfRange
      else case s_tp st nBytes of
             Some p \<Rightarrow>
               Inr (p, st\<lparr>s_tp := (s_tp st)(nBytes := mem st p),
                          mem := (mem st)(p := None)\<rparr>)
           | None \<Rightarrow> fillPool cfg st nBytes (nBytes mod 65536) blk)"

definition deallocate :: "config \<Rightarrow> pool_state \<Rightarrow> nat \<Rightarrow> ptr \<Rightarrow> error + pool_state" where
  "deallocate cfg st nBytes p =
     (if eTableSize cfg \<le> nBytes then Inl OutOfRange
      else case p of
             None \<Rightarrow> Inl NullDeref
           | Some a \<Rightarrow>
               Inr (st\<lparr>mem := (mem st)(a := s_tp st nBytes),
                       s_tp := (s_tp st)(nBytes := Some a)\<rparr>))"

definition deallocateList ::
  "config \<Rightarrow> pool_state \<Rightarrow> nat \<Rightarrow> ptr \<Rightarrow> ptr \<Rightarrow> error + pool_state" where
  "deallocateList cfg st nBytes pHead pTail =
     (if eTableSize cfg \<le> nBytes then Inl OutOfRange
      else case pTail of
             None \<Rightarrow> Inl NullDeref
           | Some t \<Rightarrow>
               Inr (st\<lparr>mem := (mem st)(t := s_tp st nBytes),
                       s_tp := (s_tp st)(nBytes := pHead)\<rparr>))"

text \<open>
  A run of \<^verbatim>\<open>allocate(nBytes)\<close> calls, one for each address the block provider
  would hand out next; the result lists the returned pointers in call order.
\<close>

fun allocateMany ::
  "config \<Rightarrow> pool_state \<Rightarrow> nat \<Rightarrow> addr list \<Rightarrow> error + (addr list \<times> pool_state)" where
  "allocateMany cfg st nBytes [] = Inr ([], st)"
| "allocateMany cfg st nBytes (blk # blks) =
     (case allocate cfg st nBytes blk of
        Inl e \<Rightarrow> Inl e
      | Inr (p, st') \<Rightarrow>
          (case allocateMany cfg st' nBytes blks of
             Inl e \<Rightarrow> Inl e
           | Inr (ps, st'') \<Rightarrow> Inr (p # ps, st'')))"

subsection \<open>Flushing the thread's lists into the global pool\<close>

text \<open>
  The loops that follow links until \<^verbatim>\<open>nullptr\<close> do not end on a cyclic list: they are
  partial functions, and \<open>None\<close> is the run that never returns. The counter \<^verbatim>\<open>n\<close> of
  \<^verbatim>\<open>flushPool\<close> and the count \<^verbatim>\<open>m_size\<close> that it is added to are \<^verbatim>\<open>int\<close>s.
\<close>

partial_function (option) findTail :: "memory \<Rightarrow> addr \<Rightarrow> int \<Rightarrow> (addr \<times> int) option" where
  "findTail m pTail n =
     (case m pTail of None \<Rightarrow> Some (pTail, n) | Some q \<Rightarrow> findTail m q (wrapInt (n + 1)))"

definition flushClass :: "pool_state \<Rightarrow> nat \<Rightarrow> pool_state option" where
  "flushClass st nBytes =
     (case s_tp st nBytes of
        None \<Rightarrow> Some st
      | Some pOldHead \<Rightarrow>
          (case findTail (mem st) pOldHead 1 of
             None \<Rightarrow> None
           | Some (pTail, n) \<Rightarrow>
               (let pe = s_pool st nBytes
                in Some (st\<lparr>s_tp := (s_tp st)(nBytes := None),
                            mem := (mem st)(pTail := m_gp pe),
                            s_pool := (s_pool st)
                              (nBytes := \<lparr>m_gp = Some pOldHead,
                                           m_size = wrapInt (m_size pe + n)\<rparr>)\<rparr>))))"

fun flushFrom :: "pool_state \<Rightarrow> nat list \<Rightarrow> pool_state option" where
  "flushFrom st [] = Some st"
| "flushFrom st (nBytes # rest) =
     (case flushClass st nBytes of None \<Rightarrow> None | Some st' \<Rightarrow> flushFrom st' rest)"

text \<open>
  The loop counter is a \<^verbatim>\<open>uint16_t\<close>: with a table of \<open>65536\<close> entries or more it
  wraps before it reaches the bound, and the loop never ends.
\<close>

definition flushPool :: "config \<Rightarrow> pool_state \<Rightarrow> pool_state option" where
  "flushPool cfg st =
     (if nts cfg then Some st
      else if 65536 \<le> eTableSize cfg then None
      else flushFrom st [1..<eTableSize cfg])"

subsection \<open>Introspection\<close>

text \<open>
  In \<^verbatim>\<open>bytesFree += pe.m_size * sz\<close> the product is one of two \<^verbatim>\<open>int\<close>s, computed
  in \<^verbatim>\<open>int\<close> and only then converted to the \<^verbatim>\<open>size_t\<close> of the sum.
\<close>

definition unguardedMemGlobalFreelist :: "config \<Rightarrow> pool_state \<Rightarrow> nat" where
  "unguardedMemGlobalFreelist cfg st =
     fold (\<lambda>sz bytesFree. addSize bytesFree (toSize (wrapInt (m_size (s_pool st sz) * int sz))))
       [1..<eTableSize cfg] 0"

definition memoryInGlobalFreeList :: "config \<Rightarrow> pool_state \<Rightarrow> nat" where
  "memoryInGlobalFreeList cfg st = unguardedMemGlobalFreelist cfg st"

text \<open>
  In \<^verbatim>\<open>memoryInThreadFreeList\<close> the loop variable is declared
  \<^verbatim>\<open>MemElemPtr &p = s_tp[sz]\<close>, a reference to the table entry: the step
  \<^verbatim>\<open>p = p->m_next\<close> of the inner loop assigns to \<open>s_tp[sz]\<close>.
\<close>

partial_function (option) threadWalk ::
  "pool_state \<Rightarrow> nat \<Rightarrow> nat \<Rightarrow> (pool_state \<times> nat) option" where
  "threadWalk st sz bytesFree =
     (case s_tp st sz of
        None \<Rightarrow> Some (st, bytesFree)
      | Some a \<Rightarrow>
          threadWalk (st\<lparr>s_tp := (s_tp st)(sz := mem st a)\<rparr>) sz (addSize bytesFree sz))"

fun threadWalkFrom :: "pool_state \<Rightarrow> nat list \<Rightarrow> nat \<Rightarrow> (pool_state \<times> nat) option" where
  "threadWalkFrom st [] bytesFree = Some (st, bytesFree)"
| "threadWalkFrom st (sz # rest) bytesFree =
     (case threadWalk st sz bytesFree of
        None \<Rightarrow> None
      | Some (st', b) \<Rightarrow> threadWalkFrom st' rest b)"

definition memoryInThreadFreeList :: "config \<Rightarrow> pool_state \<Rightarrow> (pool_state \<times> nat) option" where
  "memoryInThreadFreeList cfg st = threadWalkFrom st [1..<eTableSize cfg] 0"

subsection \<open>Teardown\<close>

text \<open>
  \<open>releaseBlocks\<close> is the loop of \<^verbatim>\<open>cleanup\<close>: it reads the link of a block,
  frees the block and goes on; the result lists the freed blocks in order.
\<close>

partial_function (option) releaseBlocks ::
  "config \<Rightarrow> memory \<Rightarrow> ptr \<Rightarrow> addr list \<Rightarrow> addr list option" where
  "releaseBlocks cfg m p freed =
     (case p of
        None \<Rightarrow> Some freed
      | Some b \<Rightarrow> releaseBlocks cfg m (m (blockLink cfg b)) (freed @ [b]))"

definition cleanup :: "config \<Rightarrow> pool_state \<Rightarrow> (error + pool_state \<times> addr list) option" where
  "cleanup cfg st =
     (if debug cfg then
        (let memGlobalFreelist = unguardedMemGlobalFreelist cfg st
         in case memoryInThreadFreeList cfg st of
              None \<Rightarrow> None
            | Some (st1, memThreadFreelist) \<Rightarrow>
                if addSize memGlobalFreelist memThreadFreelist
                     = mulSize (s_nettoAlloc st1) (ptrSize cfg)
                then (case releaseBlocks cfg (mem st1) (s_blocks st1) [] of
                        None \<Rightarrow> None
                      | Some freed \<Rightarrow> Some (Inr (st1, freed)))
                else Some (Inl AssertFailed))
      else (case releaseBlocks cfg (mem st) (s_blocks st) [] of
              None \<Rightarrow> None
            | Some freed \<Rightarrow> Some (Inr (st, freed))))"

subsection \<open>Defragmentation\<close>

text \<open>
  The buffer \<^verbatim>\<open>a\<close> of \<^verbatim>\<open>defrag\<close> is a list of cells; a cell that was never
  written holds \<open>None\<close> (only non-null pointers are ever stored in it). Writing past its
  end and sorting a cell that was never written are undefined in C++ and are errors here.
\<close>

type_synonym buffer = "addr option list"

definition maxCount :: "config \<Rightarrow> pool_state \<Rightarrow> int" where
  "maxCount cfg st =
     fold (\<lambda>sz maxSize. max maxSize (m_size (s_pool st sz))) [1..<eTableSize cfg] 0"

partial_function (option) collect ::
  "memory \<Rightarrow> ptr \<Rightarrow> buffer \<Rightarrow> nat \<Rightarrow> (error + buffer \<times> nat) option" where
  "collect m p a i =
     (case p of
        None \<Rightarrow> Some (Inr (a, i))
      | Some x \<Rightarrow>
          if length a \<le> i then Some (Inl BufferOverflow)
          else collect m (m x) (a[i := Some x]) (i + 1))"

text \<open>
  The relinking loop \<^verbatim>\<open>a[i]->m_next = a[i+1]\<close> for \<open>i < n - 1\<close>, then
  \<^verbatim>\<open>a[n-1]->m_next = nullptr\<close>, over the sorted cells.
\<close>

fun relink :: "memory \<Rightarrow> addr list \<Rightarrow> memory" where
  "relink m [] = m"
| "relink m [x] = m(x := None)"
| "relink m (x # y # ys) = relink (m(x := Some y)) (y # ys)"

definition defragClass ::
  "config \<Rightarrow> pool_state \<Rightarrow> buffer \<Rightarrow> nat \<Rightarrow> (error + pool_state \<times> buffer) option" where
  "defragClass cfg st a sz =
     (let pe = s_pool st sz; n = m_size pe
      in if 1 < n then
           (case collect (mem st) (m_gp pe) a 0 of
              None \<Rightarrow> None
            | Some (Inl e) \<Rightarrow> Some (Inl e)
            | Some (Inr (a1, i)) \<Rightarrow>
                if debug cfg \<and> int i \<noteq> n then Some (Inl AssertFailed)
                else if None \<in> set (take (nat n) a1) then Some (Inl UninitRead)
                else
                  (let sorted = sort (map the (take (nat n) a1));
                       a2 = map Some sorted @ drop (nat n) a1;
                       st1 = st\<lparr>s_pool := (s_pool st)(sz := pe\<lparr>m_gp := a2 ! 0\<rparr>)\<rparr>
                   in Some (Inr (st1\<lparr>mem := relink (mem st1) sorted\<rparr>, a2))))
         else Some (Inr (st, a)))"

fun defragFrom ::
  "config \<Rightarrow> pool_state \<Rightarrow> buffer \<Rightarrow> nat list \<Rightarrow> (error + pool_state \<times> buffer) option" where
  "defragFrom cfg st a [] = Some (Inr (st, a))"
| "defragFrom cfg st a (sz # rest) =
     (case defragClass cfg st a sz of
        None \<Rightarrow> None
      | Some (Inl e) \<Rightarrow> Some (Inl e)
      | Some (Inr (st', a')) \<Rightarrow> defragFrom cfg st' a' rest)"

definition defrag :: "config \<Rightarrow> pool_state \<Rightarrow> (error + pool_state) option" where
  "defrag cfg st =
     (let maxSize = maxCount cfg st
      in if 1 < maxSize then
           (case defragFrom cfg st (replicate (nat maxSize) None) [1..<eTableSize cfg] of
              None \<Rightarrow> None
            | Some (Inl e) \<Rightarrow> Some (Inl e)
            | Some (Inr (st', a)) \<Rightarrow> Some (Inr st'))
         else Some (Inr st))"

section \<open>Free lists as chains in memory\<close>

text \<open>
  \<open>chain m p xs\<close>: starting at \<open>p\<close> and following the links of \<open>m\<close>, one passes
  exactly the addresses \<open>xs\<close> and then reaches \<^verbatim>\<open>nullptr\<close>.
\<close>

primrec chain :: "memory \<Rightarrow> ptr \<Rightarrow> addr list \<Rightarrow> bool" where
  "chain m p [] = (p = None)"
| "chain m p (x # xs) = (p = Some x \<and> chain m (m x) xs)"

text \<open>\<open>linked m xs\<close>: each element of \<open>xs\<close> but the last links to its successor.\<close>

fun linked :: "memory \<Rightarrow> addr list \<Rightarrow> bool" where
  "linked m [] = True"
| "linked m [x] = True"
| "linked m (x # y # ys) = (m x = Some y \<and> linked m (y # ys))"

definition sliceAddrs :: "addr \<Rightarrow> nat \<Rightarrow> nat \<Rightarrow> addr list" where
  "sliceAddrs b nWords nSlices = map (\<lambda>i. b + i * nWords) [0..<nSlices]"

text \<open>
  The invariant of the data model, for the lists \<open>L s\<close> of the thread and \<open>G s\<close> of the
  global pool: every table entry heads the chain of its list, the stored count is the
  length of the global list, and no element is in two lists.
\<close>

definition pool_inv ::
  "config \<Rightarrow> pool_state \<Rightarrow> (nat \<Rightarrow> addr list) \<Rightarrow> (nat \<Rightarrow> addr list) \<Rightarrow> bool" where
  "pool_inv cfg st L G \<longleftrightarrow>
     (\<forall>s<eTableSize cfg. chain (mem st) (s_tp st s) (L s)) \<and>
     (\<forall>s<eTableSize cfg. chain (mem st) (m_gp (s_pool st s)) (G s)) \<and>
     (\<forall>s<eTableSize cfg. m_size (s_pool st s) = int (length (G s))) \<and>
     (\<forall>s<eTableSize cfg. \<forall>t<eTableSize cfg. s \<noteq> t \<longrightarrow> set (L s) \<inter> set (L t) = {}) \<and>
     (\<forall>s<eTableSize cfg. \<forall>t<eTableSize cfg. s \<noteq> t \<longrightarrow> set (G s) \<inter> set (G t) = {}) \<and>
     (\<forall>s<eTableSize cfg. \<forall>t<eTableSize cfg. set (L s) \<inter> set (G t) = {})"

text \<open>The count invariant alone.\<close>

definition count_inv :: "config \<Rightarrow> pool_state \<Rightarrow> (nat \<Rightarrow> addr list) \<Rightarrow> bool" where
  "count_inv cfg st G \<longleftrightarrow>
     (\<forall>s<eTableSize cfg. chain (mem st) (m_gp (s_pool st s)) (G s) \<and>
        m_size (s_pool st s) = int (length (G s)))"

text \<open>
  \<open>inLists cfg L G a\<close>: the address \<open>a\<close> is an element of some free list. A block from
  the provider is fresh when none of its words is.
\<close>

definition inLists :: "config \<Rightarrow> (nat \<Rightarrow> addr list) \<Rightarrow> (nat \<Rightarrow> addr list) \<Rightarrow> addr \<Rightarrow> bool" where
  "inLists cfg L G a \<longleftrightarrow> (\<exists>s<eTableSize cfg. a \<in> set (L s) \<or> a \<in> set (G s))"

definition freshBlock ::
  "config \<Rightarrow> (nat \<Rightarrow> addr list) \<Rightarrow> (nat \<Rightarrow> addr list) \<Rightarrow> addr \<Rightarrow> bool" where
  "freshBlock cfg L G blk \<longleftrightarrow>
     (\<forall>s<eTableSize cfg. \<forall>a \<in> set (L s) \<union> set (G s). a < blk \<or> blockLink cfg blk < a)"

text \<open>
  The counts of the global pool are \<^verbatim>\<open>int\<close>s. \<open>countsFit\<close>: in every size class the
  elements of the thread's list and of the global list together number at most
  \<open>2\<^sup>3\<^sup>1 - 1\<close>; \<open>bytesFit\<close>: their bytes together number at most \<open>2\<^sup>3\<^sup>1 - 1\<close>.
\<close>

definition countsFit :: "config \<Rightarrow> (nat \<Rightarrow> addr list) \<Rightarrow> (nat \<Rightarrow> addr list) \<Rightarrow> bool" where
  "countsFit cfg L G \<longleftrightarrow> (\<forall>s<eTableSize cfg. length (L s) + length (G s) < 2 ^ 31)"

definition bytesFit :: "config \<Rightarrow> (nat \<Rightarrow> addr list) \<Rightarrow> (nat \<Rightarrow> addr list) \<Rightarrow> bool" where
  "bytesFit cfg L G \<longleftrightarrow> (\<forall>s<eTableSize cfg. (length (L s) + length (G s)) * s < 2 ^ 31)"

section \<open>Composite runs and expected results\<close>

text \<open>
  The composite \<^verbatim>\<open>deallocate(s, allocate(s))\<close>: the pointer that \<^verbatim>\<open>allocate\<close> returns
  is handed back at once.
\<close>

definition roundtrip :: "config \<Rightarrow> pool_state \<Rightarrow> nat \<Rightarrow> addr \<Rightarrow> error + pool_state" where
  "roundtrip cfg st s blk =
     (case allocate cfg st s blk of
        Inl e \<Rightarrow> Inl e
      | Inr (p, st1) \<Rightarrow> deallocate cfg st1 s (Some p))"

text \<open>
  The bytes in the thread's lists \<open>L\<close>: for every size class the length of its list
  times the size.
\<close>

definition threadBytes :: "config \<Rightarrow> (nat \<Rightarrow> addr list) \<Rightarrow> nat" where
  "threadBytes cfg L = (\<Sum>sz\<leftarrow>[1..<eTableSize cfg]. length (L sz) * sz)"

text \<open>The state with the thread's head of every size class set to \<^verbatim>\<open>nullptr\<close>.\<close>

definition clearHeads :: "config \<Rightarrow> pool_state \<Rightarrow> pool_state" where
  "clearHeads cfg st =
     st\<lparr>s_tp := (\<lambda>t. if 1 \<le> t \<and> t < eTableSize cfg then None else s_tp st t)\<rparr>"

text \<open>
  The state that the fresh allocator reaches by the first \<^verbatim>\<open>allocate(s)\<close> and the
  matching \<^verbatim>\<open>deallocate\<close>: one block at \<open>blk\<close>, sliced for class \<open>s\<close>, with all its
  slices in the thread's list of \<open>s\<close>.
\<close>

definition slicedState :: "config \<Rightarrow> memory \<Rightarrow> nat \<Rightarrow> addr \<Rightarrow> pool_state" where
  "slicedState cfg m s blk =
     (let (nSlices, nWords) = slicesPerBlock cfg (max s (eMinBytes cfg mod 65536))
      in \<lparr>mem = makeSlices (m(blockLink cfg blk := None)) blk nWords nSlices,
          s_tp = (\<lambda>_. None)(s := Some blk),
          s_pool = (\<lambda>_. \<lparr>m_gp = None, m_size = 0\<rparr>),
          s_blocks = Some blk,
          s_nettoAlloc = (if debug cfg then nWords * nSlices else 0)\<rparr>)"

section \<open>Concrete configurations and states\<close>

text \<open>
  \<open>cfg_small\<close> has tables of four entries and blocks of five words, four of them fill,
  so that a block holds four slices of eight bytes. \<open>cfg_large\<close> has tables of 256 entries
  and blocks of 8192 bytes on a machine with pointers of eight bytes. In \<open>cfg_tiny\<close> a
  block has two words of fill, which is one slice of a class from 9 to 16 bytes. All three
  are debug builds with threads.
\<close>

definition cfg_small :: config where
  "cfg_small = \<lparr>eTableSize = 4, eBlockSize = 40, eMinBytes = 8, ptrSize = 8,
                 debug = True, nts = False\<rparr>"

definition cfg_large :: config where
  "cfg_large = \<lparr>eTableSize = 256, eBlockSize = 8192, eMinBytes = 8, ptrSize = 8,
                 debug = True, nts = False\<rparr>"


text \<open>
  Two memories: one where every word holds \<^verbatim>\<open>nullptr\<close>, and one full of junk, where
  every word holds the address 7.
\<close>

definition mem0 :: memory where
  "mem0 = (\<lambda>_. None)"

definition mem_junk :: memory where
  "mem_junk = (\<lambda>_. Some 7)"

text \<open>The allocator before any call, in the junk memory.\<close>

definition st_fresh :: pool_state where
  "st_fresh = init_state mem_junk"

text \<open>
  What \<open>st_fresh\<close> has become after \<open>roundtrip\<close> on class 1 under \<open>cfg_small\<close>, with
  the first block at address 100.
\<close>

definition st_roundtrip :: pool_state where
  "st_roundtrip =
     \<lparr>mem = makeSlices (mem_junk(104 := None)) 100 1 4,
      s_tp = (\<lambda>_. None)(1 := Some 100),
      s_pool = (\<lambda>_. \<lparr>m_gp = None, m_size = 0\<rparr>),
      s_blocks = Some 100, s_nettoAlloc = 4\<rparr>"

text \<open>\<open>L_empty\<close> are empty lists for every size class.\<close>

definition L_empty :: "nat \<Rightarrow> addr list" where
  "L_empty = (\<lambda>_. [])"

text \<open>A state with the three elements 10, 20 and 30 linked in this order.\<close>

definition st_linked :: pool_state where
  "st_linked = init_state (mem_junk(10 := Some 20, 20 := Some 30))"

text \<open>
  A state whose thread holds the list 10, 20, 30 for class 1 and the list 40 for
  class 2 (the lists \<open>L_thread\<close>), with an empty global pool.
\<close>

definition st_thread :: pool_state where
  "st_thread =
     \<lparr>mem = mem_junk(10 := Some 20, 20 := Some 30, 30 := None, 40 := None),
      s_tp = (\<lambda>_. None)(1 := Some 10, 2 := Some 40),
      s_pool = (\<lambda>_. \<lparr>m_gp = None, m_size = 0\<rparr>),
      s_blocks = None, s_nettoAlloc = 0\<rparr>"

definition L_thread :: "nat \<Rightarrow> addr list" where
  "L_thread = (\<lambda>_. [])(1 := [10, 20, 30], 2 := [40])"

text \<open>
  A state whose global pool holds the list 30, 10, 20 for class 1 and the list 40 for
  class 2 (the lists \<open>G_scattered\<close>), with matching counts.
\<close>

definition st_scattered :: pool_state where
  "st_scattered =
     \<lparr>mem = mem_junk(30 := Some 10, 10 := Some 20, 20 := None, 40 := None),
      s_tp = (\<lambda>_. None),
      s_pool = (\<lambda>_. \<lparr>m_gp = None, m_size = 0\<rparr>)
                 (1 := \<lparr>m_gp = Some 30, m_size = 3\<rparr>, 2 := \<lparr>m_gp = Some 40, m_size = 1\<rparr>),
      s_blocks = None, s_nettoAlloc = 0\<rparr>"

definition G_scattered :: "nat \<Rightarrow> addr list" where
  "G_scattered = (\<lambda>_. [])(1 := [30, 10, 20], 2 := [40])"

text \<open>
  A state whose thread holds the list 60, 70 for class 2 and nothing for class 1, and
  whose global pool holds the five elements 30, 10, 50, 20, 40 for class 1, out of address
  order, and the element 80 for class 2 (the lists \<open>L_busy\<close> and \<open>G_busy\<close>).
\<close>

definition st_busy :: pool_state where
  "st_busy =
     \<lparr>mem = mem_junk(30 := Some 10, 10 := Some 50, 50 := Some 20, 20 := Some 40, 40 := None,
                     60 := Some 70, 70 := None, 80 := None),
      s_tp = (\<lambda>_. None)(2 := Some 60),
      s_pool = (\<lambda>_. \<lparr>m_gp = None, m_size = 0\<rparr>)
                 (1 := \<lparr>m_gp = Some 30, m_size = 5\<rparr>, 2 := \<lparr>m_gp = Some 80, m_size = 1\<rparr>),
      s_blocks = None, s_nettoAlloc = 0\<rparr>"

definition L_busy :: "nat \<Rightarrow> addr list" where
  "L_busy = (\<lambda>_. [])(2 := [60, 70])"

definition G_busy :: "nat \<Rightarrow> addr list" where
  "G_busy = (\<lambda>_. [])(1 := [30, 10, 50, 20, 40], 2 := [80])"

text \<open>
  \<open>st_big n\<close>: the global pool holds \<open>n\<close> elements of class 3, the words from 1000 on,
  linked in ascending order as \<^verbatim>\<open>makeSlices\<close> links them, and the thread holds the one
  element 10 of class 3 (the lists \<open>G_big n\<close> and \<open>L_one\<close>). \<open>st_big_flushed n c\<close> is
  that state with the element 10 in front of the global list and the count \<open>c\<close>.
\<close>

definition st_big :: "nat \<Rightarrow> pool_state" where
  "st_big n =
     \<lparr>mem = makeSlices mem0 1000 1 n,
      s_tp = (\<lambda>_. None)(3 := Some 10),
      s_pool = (\<lambda>_. \<lparr>m_gp = None, m_size = 0\<rparr>)(3 := \<lparr>m_gp = Some 1000, m_size = int n\<rparr>),
      s_blocks = None, s_nettoAlloc = 0\<rparr>"

definition st_big_flushed :: "nat \<Rightarrow> int \<Rightarrow> pool_state" where
  "st_big_flushed n c =
     \<lparr>mem = (makeSlices mem0 1000 1 n)(10 := Some 1000),
      s_tp = (\<lambda>_. None),
      s_pool = (\<lambda>_. \<lparr>m_gp = None, m_size = 0\<rparr>)(3 := \<lparr>m_gp = Some 10, m_size = c\<rparr>),
      s_blocks = None, s_nettoAlloc = 0\<rparr>"

definition G_big :: "nat \<Rightarrow> nat \<Rightarrow> addr list" where
  "G_big n = (\<lambda>_. [])(3 := sliceAddrs 1000 1 n)"

definition L_one :: "nat \<Rightarrow> addr list" where
  "L_one = (\<lambda>_. [])(3 := [10])"

section \<open>Machine integers\<close>

lemma wrapInt_id: "- (2 ^ 31) \<le> i \<Longrightarrow> i < 2 ^ 31 \<Longrightarrow> wrapInt i = i"
  by (simp add: wrapInt_def)

lemma wrapInt_nat: "n < 2 ^ 31 \<Longrightarrow> wrapInt (int n) = int n"
  by (rule wrapInt_id) simp_all

lemma toSize_less: "toSize i < 2 ^ 64"
proof -
  have "0 \<le> i mod 2 ^ 64" "i mod 2 ^ 64 < int (2 ^ 64)" by simp_all
  then show ?thesis unfolding toSize_def by (simp only: nat_less_iff)
qed

lemma toSize_nat: "n < 2 ^ 64 \<Longrightarrow> toSize (int n) = n"
proof -
  assume "n < 2 ^ 64"
  then have "int n mod 2 ^ 64 = int n" by simp
  then show ?thesis by (simp add: toSize_def)
qed

lemma fold_addSize:
  "a < 2 ^ 64 \<Longrightarrow> fold (\<lambda>x b. addSize b (f x)) xs a = (a + sum_list (map f xs)) mod 2 ^ 64"
proof (induction xs arbitrary: a)
  case Nil
  then show ?case by simp
next
  case (Cons x xs)
  have "addSize a (f x) < 2 ^ 64" by (simp add: addSize_def)
  from Cons.IH[OF this] show ?case
    by (simp add: addSize_def mod_add_left_eq add.assoc)
qed

lemma sum_list_bounded:
  "(\<And>x. x \<in> set xs \<Longrightarrow> f x \<le> (c::nat)) \<Longrightarrow> sum_list (map f xs) \<le> length xs * c"
  by (induction xs) (simp_all add: add_mono)

section \<open>Chains\<close>

lemma chain_unique: "chain m p xs \<Longrightarrow> chain m p ys \<Longrightarrow> xs = ys"
  by (induction xs arbitrary: p ys) (case_tac ys; auto)+

lemma chain_upd_other: "a \<notin> set xs \<Longrightarrow> chain (m(a := v)) p xs = chain m p xs"
  by (induction xs arbitrary: p) auto

lemma chain_cong_mem: "\<forall>a\<in>set xs. m' a = m a \<Longrightarrow> chain m' p xs = chain m p xs"
  by (induction xs arbitrary: p) auto

lemma chain_suffix: "chain m p (us @ ws) \<Longrightarrow> \<exists>q. chain m q ws"
  by (induction us arbitrary: p) auto

lemma chain_head_notin: assumes "chain m (m a) xs" shows "a \<notin> set xs"
proof
  assume "a \<in> set xs"
  then obtain us vs where xs: "xs = us @ a # vs" by (auto simp: in_set_conv_decomp)
  with assms obtain q where "chain m q (a # vs)" using chain_suffix by blast
  then have "chain m (m a) vs" by simp
  with assms have "xs = vs" by (rule chain_unique)
  with xs show False by simp
qed

lemma chain_distinct: "chain m p xs \<Longrightarrow> distinct xs"
  by (induction xs arbitrary: p) (auto dest: chain_head_notin)

lemma chain_last_None: "chain m p xs \<Longrightarrow> xs \<noteq> [] \<Longrightarrow> m (last xs) = None"
  by (induction xs arbitrary: p) (auto split: if_splits)

lemma advance_chain:
  "chain m p xs \<Longrightarrow> k < length xs \<Longrightarrow> advance m p k = Inr (Some (xs ! k))"
proof (induction k arbitrary: p xs)
  case 0 then show ?case by (cases xs) auto
next
  case (Suc k) then show ?case by (cases xs) auto
qed

lemma chain_drop:
  "chain m p xs \<Longrightarrow> k < length xs \<Longrightarrow> chain m (m (xs ! k)) (drop (Suc k) xs)"
proof (induction k arbitrary: p xs)
  case 0 then show ?case by (cases xs) auto
next
  case (Suc k) then show ?case by (cases xs) auto
qed

lemma chain_take:
  "chain m p xs \<Longrightarrow> k < length xs \<Longrightarrow> chain (m(xs ! k := None)) p (take (Suc k) xs)"
proof (induction k arbitrary: p xs)
  case 0 then show ?case by (cases xs) auto
next
  case (Suc k)
  then obtain x ys where xs: "xs = x # ys" by (cases xs) auto
  with Suc.prems have ys: "chain m (m x) ys" "k < length ys" "p = Some x" by auto
  from Suc.prems(1) have "distinct xs" by (rule chain_distinct)
  with xs ys have "x \<noteq> ys ! k" by auto
  with Suc.IH[OF ys(1,2)] ys(3) show ?case by (simp add: xs)
qed

lemma nth_notin_drop: "distinct xs \<Longrightarrow> k < length xs \<Longrightarrow> xs ! k \<notin> set (drop (Suc k) xs)"
proof -
  assume d: "distinct xs" and k: "k < length xs"
  have "xs = take k xs @ xs ! k # drop (Suc k) xs" using k by (rule id_take_nth_drop)
  with d have "distinct (take k xs @ xs ! k # drop (Suc k) xs)" by simp
  then show ?thesis by simp
qed

lemma take_drop_disjoint: "distinct xs \<Longrightarrow> set (take n xs) \<inter> set (drop n xs) = {}"
proof -
  assume "distinct xs"
  then have "distinct (take n xs @ drop n xs)" by simp
  then show ?thesis by (simp only: distinct_append)
qed

lemma chain_splice:
  "chain m p xs \<Longrightarrow> xs \<noteq> [] \<Longrightarrow> chain m q ys \<Longrightarrow> set xs \<inter> set ys = {} \<Longrightarrow>
   chain (m(last xs := q)) p (xs @ ys)"
proof (induction xs arbitrary: p)
  case Nil
  then show ?case by simp
next
  case (Cons x xs)
  from Cons.prems(1) have p: "p = Some x" and tl: "chain m (m x) xs" by simp_all
  show ?case
  proof (cases "xs = []")
    case True
    from Cons.prems(3,4) have "chain (m(x := q)) q ys" by (simp add: chain_upd_other)
    with True p show ?thesis by (simp add: fun_upd_def)
  next
    case False
    from Cons.prems(1) have "distinct (x # xs)" by (rule chain_distinct)
    with False have xl: "x \<noteq> last xs" by auto
    from Cons.prems(4) have "set xs \<inter> set ys = {}" by auto
    from Cons.IH[OF tl False Cons.prems(3) this]
    have "chain (m(last xs := q)) (m x) (xs @ ys)" .
    with xl False p show ?thesis by (simp add: fun_upd_def)
  qed
qed

lemma linked_chain:
  "linked m xs \<Longrightarrow> xs \<noteq> [] \<Longrightarrow> distinct xs \<Longrightarrow> chain m q ys \<Longrightarrow> set xs \<inter> set ys = {} \<Longrightarrow>
   chain (m(last xs := q)) (Some (hd xs)) (xs @ ys)"
proof (induction m xs rule: linked.induct)
  case (1 m) then show ?case by simp
next
  case (2 m x)
  then have "chain (m(x := q)) q ys" by (simp add: chain_upd_other)
  then show ?case by (simp add: fun_upd_def)
next
  case (3 m x y ys')
  define l where "l = last (y # ys')"
  have l: "last (x # y # ys') = l" by (simp add: l_def)
  have "l \<in> set (y # ys')" unfolding l_def by (rule last_in_set) simp
  with "3.prems"(3) have xl: "x \<noteq> l" by auto
  from 3 have "chain (m(last (y # ys') := q)) (Some (hd (y # ys'))) ((y # ys') @ ys)"
    unfolding fun_upd_def by auto
  then have ih: "chain (m(l := q)) (Some y) (y # ys' @ ys)" by (simp add: l_def)
  from "3.prems"(1) have "m x = Some y" by simp
  with xl have "(m(l := q)) x = Some y" by simp
  with ih show ?case unfolding l by (simp add: fun_upd_def)
qed

lemma linked_upd_other: "a \<notin> set (butlast xs) \<Longrightarrow> linked (m(a := v)) xs = linked m xs"
proof (induction m xs rule: linked.induct)
  case (3 m x y ys)
  then show ?case by (simp add: fun_upd_def)
qed simp_all

section \<open>Slicing a block\<close>

lemma sliceAddrs_Suc: "sliceAddrs b w (Suc n) = b # sliceAddrs (b + w) w n"
proof -
  have "[0..<Suc n] = 0 # map Suc [0..<n]"
    by (simp add: upt_conv_Cons map_Suc_upt del: upt_Suc)
  then show ?thesis
    by (simp add: sliceAddrs_def comp_def add.assoc del: upt_Suc)
qed

lemma length_sliceAddrs: "length (sliceAddrs b w n) = n"
  by (simp add: sliceAddrs_def)

lemma sliceAddrs_lower: "a \<in> set (sliceAddrs b w n) \<Longrightarrow> b \<le> a"
  by (auto simp: sliceAddrs_def)

lemma sliceAddrs_two: "sliceAddrs b w 2 = [b, b + w]"
  by (simp add: sliceAddrs_def numeral_2_eq_2)

lemma sliceAddrs_range:
  assumes "a \<in> set (sliceAddrs b w n)" "0 < w"
  shows "b \<le> a \<and> a < b + n * w"
proof -
  from assms(1) obtain i where i: "i < n" "a = b + i * w" by (auto simp: sliceAddrs_def)
  then have "Suc i \<le> n" by simp
  then have "Suc i * w \<le> n * w" by (rule mult_le_mono1)
  with i assms(2) show ?thesis by simp
qed

lemma sliceAddrs_ascending: "0 < w \<Longrightarrow> sorted_wrt (<) (sliceAddrs b w n)"
  by (simp add: sliceAddrs_def sorted_wrt_map sorted_wrt_iff_nth_less)

lemma makeSlices_frame:
  "a \<notin> set (sliceAddrs b w (max 2 n)) \<Longrightarrow> makeSlices m b w n a = m a"
proof (induction m b w n rule: makeSlices.induct)
  case (1 m pBlock nWords nSlices)
  show ?case
  proof (cases "nSlices - 1 > 1")
    case True
    then obtain k where k: "nSlices = Suc k" "1 < k" by (cases nSlices) auto
    from "1.prems" k have notin:
      "a \<noteq> pBlock" "a \<notin> set (sliceAddrs (pBlock + nWords) nWords (max 2 k))"
      by (simp_all add: sliceAddrs_Suc max_def)
    have "makeSlices (m(pBlock := Some (pBlock + nWords))) (pBlock + nWords) nWords
            (nSlices - 1) a = (m(pBlock := Some (pBlock + nWords))) a"
      using "1.IH"[OF refl refl True] notin k by (simp add: fun_upd_def)
    with True notin show ?thesis
      by (subst makeSlices.simps) (simp add: Let_def)
  next
    case False
    then have "max 2 nSlices = 2" by simp
    then have "a \<noteq> pBlock" "a \<noteq> pBlock + nWords"
      using "1.prems" by (auto simp: sliceAddrs_two)
    with False show ?thesis
      by (subst makeSlices.simps) (simp add: Let_def)
  qed
qed

lemma makeSlices_chain:
  "2 \<le> n \<Longrightarrow> 0 < w \<Longrightarrow> chain (makeSlices m b w n) (Some b) (sliceAddrs b w n)"
proof (induction m b w n rule: makeSlices.induct)
  case (1 m pBlock nWords nSlices)
  let ?m' = "m(pBlock := Some (pBlock + nWords))"
  show ?case
  proof (cases "nSlices - 1 > 1")
    case True
    then obtain k where k: "nSlices = Suc k" "2 \<le> k" by (cases nSlices) auto
    have step: "makeSlices m pBlock nWords nSlices = makeSlices ?m' (pBlock + nWords) nWords k"
      using True k by (subst makeSlices.simps) (simp add: Let_def)
    have ih: "chain (makeSlices ?m' (pBlock + nWords) nWords k) (Some (pBlock + nWords))
                (sliceAddrs (pBlock + nWords) nWords k)"
      using "1.IH"[OF refl refl True] k "1.prems" by (simp add: fun_upd_def)
    have "pBlock \<notin> set (sliceAddrs (pBlock + nWords) nWords (max 2 k))"
      using sliceAddrs_lower[of pBlock "pBlock + nWords" nWords] "1.prems" by auto
    then have "makeSlices ?m' (pBlock + nWords) nWords k pBlock = Some (pBlock + nWords)"
      by (simp add: makeSlices_frame)
    with ih show ?thesis
      unfolding step by (simp add: k(1) sliceAddrs_Suc)
  next
    case False
    with "1.prems" have n2: "nSlices = 2" by simp
    show ?thesis using "1.prems" n2
      by (subst makeSlices.simps) (simp add: Let_def sliceAddrs_two)
  qed
qed

lemma makeSlices_short:
  assumes "n \<le> 2"
  shows "makeSlices m b w n = m(b := Some (b + w), b + w := None)"
proof -
  from assms have "\<not> 1 < n - 1" by arith
  then show ?thesis by (subst makeSlices.simps) (simp add: Let_def)
qed

lemma makeSlices_chain_max:
  assumes "0 < w"
  shows "chain (makeSlices m b w n) (Some b) (sliceAddrs b w (max 2 n))"
proof (cases "2 \<le> n")
  case True
  then have "max 2 n = n" by simp
  with makeSlices_chain[OF True assms] show ?thesis by simp
next
  case False
  then have "max 2 n = 2" "n \<le> 2" by simp_all
  with assms show ?thesis by (simp add: makeSlices_short sliceAddrs_two)
qed

lemma makeSlices_first: "makeSlices m b w n b = Some (b + w) \<or> w = 0"
proof (cases "w = 0")
  case False
  have "b \<notin> set (sliceAddrs (b + w) w (max 2 (n - 1)))"
    using sliceAddrs_lower[of b "b + w" w] False by auto
  then have "makeSlices (m(b := Some (b + w))) (b + w) w (n - 1) b = Some (b + w)"
    by (simp add: makeSlices_frame)
  with False show ?thesis
    by (subst makeSlices.simps) (simp add: Let_def)
qed simp

lemma slicesPerBlock_facts:
  assumes "slicesPerBlock cfg b = (n, w)" "1 \<le> n"
  shows "0 < w" "0 < ptrSize cfg" "n * w \<le> (eBlockSize cfg - ptrSize cfg) div ptrSize cfg"
proof -
  from assms(1) have n: "n = (eBlockSize cfg - ptrSize cfg) div (w * ptrSize cfg)"
    by (auto simp: slicesPerBlock_def Let_def)
  with assms(2) have pos: "0 < w * ptrSize cfg" by (cases "w * ptrSize cfg = 0") auto
  then show "0 < w" "0 < ptrSize cfg" by auto
  have "n * (w * ptrSize cfg) \<le> eBlockSize cfg - ptrSize cfg"
    unfolding n by simp
  then have "(n * w) * ptrSize cfg \<le> eBlockSize cfg - ptrSize cfg" by (simp add: mult.assoc)
  with \<open>0 < ptrSize cfg\<close> show "n * w \<le> (eBlockSize cfg - ptrSize cfg) div ptrSize cfg"
    by (simp add: less_eq_div_iff_mult_less_eq)
qed

text \<open>
  For a slice count of at least two, \<^verbatim>\<open>makeSlices\<close> links the block into a chain of
  exactly \<open>nSlices\<close> elements at \<open>b + i * nWords\<close> for \<open>i < nSlices\<close>, in ascending
  order; the link of the last element is \<^verbatim>\<open>nullptr\<close>, and no word outside these
  addresses is written.
\<close>

lemma makeSlices_slices:
  assumes "2 \<le> nSlices" "0 < nWords"
  shows "chain (makeSlices m b nWords nSlices) (Some b) (sliceAddrs b nWords nSlices) \<and>
         length (sliceAddrs b nWords nSlices) = nSlices \<and>
         (\<forall>i<nSlices. sliceAddrs b nWords nSlices ! i = b + i * nWords) \<and>
         sorted_wrt (<) (sliceAddrs b nWords nSlices) \<and>
         makeSlices m b nWords nSlices (b + (nSlices - 1) * nWords) = None \<and>
         (\<forall>a. a \<notin> set (sliceAddrs b nWords nSlices) \<longrightarrow>
              makeSlices m b nWords nSlices a = m a)"
proof -
  have ch: "chain (makeSlices m b nWords nSlices) (Some b) (sliceAddrs b nWords nSlices)"
    using assms by (rule makeSlices_chain)
  have ne: "sliceAddrs b nWords nSlices \<noteq> []" using assms(1) by (auto simp: sliceAddrs_def)
  have "last (sliceAddrs b nWords nSlices) = b + (nSlices - 1) * nWords"
    using assms(1) by (cases nSlices) (simp_all add: sliceAddrs_def)
  with chain_last_None[OF ch ne]
  have lst: "makeSlices m b nWords nSlices (b + (nSlices - 1) * nWords) = None" by simp
  have "max 2 nSlices = nSlices" using assms(1) by simp
  then have fr: "\<forall>a. a \<notin> set (sliceAddrs b nWords nSlices) \<longrightarrow>
                  makeSlices m b nWords nSlices a = m a"
    using makeSlices_frame[of _ b nWords nSlices m] by simp
  from ch lst fr sliceAddrs_ascending[OF assms(2)] show ?thesis
    by (simp add: sliceAddrs_def)
qed

section \<open>The invariant of the data model\<close>

lemma pool_inv_L: "pool_inv cfg st L G \<Longrightarrow> s < eTableSize cfg \<Longrightarrow> chain (mem st) (s_tp st s) (L s)"
  by (simp add: pool_inv_def)

lemma pool_inv_G: "pool_inv cfg st L G \<Longrightarrow> s < eTableSize cfg \<Longrightarrow> chain (mem st) (m_gp (s_pool st s)) (G s)"
  by (simp add: pool_inv_def)

lemma pool_inv_count: "pool_inv cfg st L G \<Longrightarrow> s < eTableSize cfg \<Longrightarrow> m_size (s_pool st s) = int (length (G s))"
  by (simp add: pool_inv_def)

lemma pool_inv_LL:
  "pool_inv cfg st L G \<Longrightarrow> s < eTableSize cfg \<Longrightarrow> t < eTableSize cfg \<Longrightarrow> s \<noteq> t \<Longrightarrow>
   a \<in> set (L s) \<Longrightarrow> a \<notin> set (L t)"
  unfolding pool_inv_def by blast

lemma pool_inv_GG:
  "pool_inv cfg st L G \<Longrightarrow> s < eTableSize cfg \<Longrightarrow> t < eTableSize cfg \<Longrightarrow> s \<noteq> t \<Longrightarrow>
   a \<in> set (G s) \<Longrightarrow> a \<notin> set (G t)"
  unfolding pool_inv_def by blast

lemma pool_inv_LG:
  "pool_inv cfg st L G \<Longrightarrow> s < eTableSize cfg \<Longrightarrow> t < eTableSize cfg \<Longrightarrow>
   a \<in> set (L s) \<Longrightarrow> a \<notin> set (G t)"
  unfolding pool_inv_def by blast

lemma pool_inv_other:
  "pool_inv cfg st L G \<Longrightarrow> s < eTableSize cfg \<Longrightarrow> t < eTableSize cfg \<Longrightarrow> t \<noteq> s \<Longrightarrow>
   (set (L s) \<union> set (G s)) \<inter> (set (L t) \<union> set (G t)) = {}"
  unfolding pool_inv_def by blast

lemma pool_inv_same:
  "pool_inv cfg st L G \<Longrightarrow> s < eTableSize cfg \<Longrightarrow> set (L s) \<inter> set (G s) = {}"
  unfolding pool_inv_def by blast

lemma pool_inv_count_inv: "pool_inv cfg st L G \<Longrightarrow> count_inv cfg st G"
  by (simp add: pool_inv_def count_inv_def)

lemma pool_inv_init: "pool_inv cfg (init_state m) (\<lambda>_. []) (\<lambda>_. [])"
  by (simp add: pool_inv_def init_state_def)

lemma count_inv_init: "count_inv cfg (init_state m) (\<lambda>_. [])"
  by (simp add: count_inv_def init_state_def)

lemma not_inLists:
  "\<not> inLists cfg L G a \<Longrightarrow> t < eTableSize cfg \<Longrightarrow> a \<notin> set (L t) \<and> a \<notin> set (G t)"
  by (auto simp: inLists_def)

lemma freshBlock_notin:
  assumes "freshBlock cfg L G blk" "t < eTableSize cfg" "a \<in> set (L t) \<union> set (G t)"
  shows "a < blk \<or> blockLink cfg blk < a"
  using assms unfolding freshBlock_def by blast

text \<open>
  An operation that works on one size class \<open>s\<close> keeps the invariant when it leaves the
  links of the other classes' elements and their table entries alone, and the new lists
  of \<open>s\<close> are chains that share nothing with each other or with the other classes.
\<close>

lemma pool_inv_update:
  assumes inv: "pool_inv cfg st L G" and s: "s < eTableSize cfg"
    and frame: "\<And>t a. t < eTableSize cfg \<Longrightarrow> t \<noteq> s \<Longrightarrow> a \<in> set (L t) \<union> set (G t) \<Longrightarrow>
                  mem st' a = mem st a"
    and tabs: "\<And>t. t \<noteq> s \<Longrightarrow> s_tp st' t = s_tp st t \<and> s_pool st' t = s_pool st t"
    and cl: "chain (mem st') (s_tp st' s) xs"
    and cg: "chain (mem st') (m_gp (s_pool st' s)) gs"
    and cnt: "m_size (s_pool st' s) = int (length gs)"
    and d1: "set xs \<inter> set gs = {}"
    and d2: "\<And>t. t < eTableSize cfg \<Longrightarrow> t \<noteq> s \<Longrightarrow>
               (set xs \<union> set gs) \<inter> (set (L t) \<union> set (G t)) = {}"
  shows "pool_inv cfg st' (L(s := xs)) (G(s := gs))"
  unfolding pool_inv_def
proof (intro conjI allI impI)
  fix t assume t: "t < eTableSize cfg"
  show "chain (mem st') (s_tp st' t) ((L(s := xs)) t)"
  proof (cases "t = s")
    case True with cl show ?thesis by simp
  next
    case False
    then have "chain (mem st') (s_tp st t) (L t) = chain (mem st) (s_tp st t) (L t)"
      using frame[OF t] by (intro chain_cong_mem) auto
    with False tabs[OF False] pool_inv_L[OF inv t] show ?thesis by simp
  qed
  show "chain (mem st') (m_gp (s_pool st' t)) ((G(s := gs)) t)"
  proof (cases "t = s")
    case True with cg show ?thesis by simp
  next
    case False
    then have "chain (mem st') (m_gp (s_pool st t)) (G t) = chain (mem st) (m_gp (s_pool st t)) (G t)"
      using frame[OF t] by (intro chain_cong_mem) auto
    with False tabs[OF False] pool_inv_G[OF inv t] show ?thesis by simp
  qed
  show "m_size (s_pool st' t) = int (length ((G(s := gs)) t))"
    using cnt tabs[of t] pool_inv_count[OF inv t] by (cases "t = s") auto
next
  fix t u assume tu: "t < eTableSize cfg" "u < eTableSize cfg" "t \<noteq> u"
  show "set ((L(s := xs)) t) \<inter> set ((L(s := xs)) u) = {}"
    using tu d2[of t] d2[of u] pool_inv_LL[OF inv tu] by (auto split: if_splits)
  show "set ((G(s := gs)) t) \<inter> set ((G(s := gs)) u) = {}"
    using tu d2[of t] d2[of u] pool_inv_GG[OF inv tu] by (auto split: if_splits)
next
  fix t u assume tu: "t < eTableSize cfg" "u < eTableSize cfg"
  show "set ((L(s := xs)) t) \<inter> set ((G(s := gs)) u) = {}"
    using tu d1 d2[of t] d2[of u] pool_inv_LG[OF inv tu] by (auto split: if_splits)
qed

section \<open>Allocation and deallocation\<close>

lemma allocate_fast:
  assumes inv: "pool_inv cfg st L G" and s: "s < eTableSize cfg" and hd: "s_tp st s = Some p"
  defines "st' \<equiv> st\<lparr>s_tp := (s_tp st)(s := mem st p), mem := (mem st)(p := None)\<rparr>"
  shows "allocate cfg st s blk = Inr (p, st')"
    and "pool_inv cfg st' (L(s := tl (L s))) G"
    and "\<not> inLists cfg (L(s := tl (L s))) G p"
    and "L s = p # tl (L s)"
proof -
  show "allocate cfg st s blk = Inr (p, st')"
    using s hd by (simp add: allocate_def st'_def)
  from pool_inv_L[OF inv s] hd obtain xs where Ls: "L s = p # xs"
    and xs: "chain (mem st) (mem st p) xs"
    by (cases "L s") auto
  show "L s = p # tl (L s)" by (simp add: Ls)
  from pool_inv_L[OF inv s] have "distinct (L s)" by (rule chain_distinct)
  then have pxs: "p \<notin> set xs" by (simp add: Ls)
  have pG: "p \<notin> set (G s)" using pool_inv_same[OF inv s] Ls by auto
  have oth: "p \<notin> set (L t) \<union> set (G t)" if "t < eTableSize cfg" "t \<noteq> s" for t
    using pool_inv_other[OF inv s that] Ls by auto
  show "\<not> inLists cfg (L(s := tl (L s))) G p"
    using oth pG pxs by (auto simp: inLists_def Ls)
  have "pool_inv cfg st' (L(s := xs)) (G(s := G s))"
  proof (rule pool_inv_update[OF inv s])
    show "mem st' a = mem st a" if "t < eTableSize cfg" "t \<noteq> s" "a \<in> set (L t) \<union> set (G t)" for t a
      using oth[OF that(1,2)] that(3) by (auto simp: st'_def)
    show "chain (mem st') (s_tp st' s) xs"
      using xs pxs by (simp add: st'_def chain_upd_other)
    show "chain (mem st') (m_gp (s_pool st' s)) (G s)"
      using pool_inv_G[OF inv s] pG by (simp add: st'_def chain_upd_other)
    show "m_size (s_pool st' s) = int (length (G s))"
      using pool_inv_count[OF inv s] by (simp add: st'_def)
    show "set xs \<inter> set (G s) = {}" using pool_inv_same[OF inv s] Ls by auto
    show "(set xs \<union> set (G s)) \<inter> (set (L t) \<union> set (G t)) = {}"
      if "t < eTableSize cfg" "t \<noteq> s" for t
      using pool_inv_other[OF inv s that] Ls by auto
  qed (simp add: st'_def)
  then show "pool_inv cfg st' (L(s := tl (L s))) G" by (simp add: Ls)
qed

lemma allocateMany_linked:
  assumes "s < eTableSize cfg"
  shows "xs \<noteq> [] \<Longrightarrow> linked (mem st) xs \<Longrightarrow> distinct xs \<Longrightarrow> s_tp st s = Some (hd xs) \<Longrightarrow>
         length blks = length xs \<Longrightarrow>
         \<exists>st'. allocateMany cfg st s blks = Inr (xs, st') \<and> s_tp st' s = mem st (last xs)"
proof (induction xs arbitrary: st blks)
  case Nil
  then show ?case by simp
next
  case (Cons x xs')
  from Cons.prems(5) obtain b bs where blks: "blks = b # bs" "length bs = length xs'"
    by (cases blks) auto
  define st1 where "st1 = st\<lparr>s_tp := (s_tp st)(s := mem st x), mem := (mem st)(x := None)\<rparr>"
  have a1: "allocate cfg st s b = Inr (x, st1)"
    using assms Cons.prems(4) by (simp add: allocate_def st1_def)
  show ?case
  proof (cases xs')
    case Nil
    with a1 blks show ?thesis by (simp add: st1_def)
  next
    case (Cons y ys)
    with Cons.prems(2) have mx: "mem st x = Some y" and lk: "linked (mem st) xs'" by auto
    from Cons.prems(3) have xn: "x \<notin> set xs'" and d: "distinct xs'" by auto
    from xn have "x \<notin> set (butlast xs')" by (auto dest: in_set_butlastD)
    then have lk1: "linked (mem st1) xs'" using lk by (simp add: st1_def linked_upd_other)
    have hd1: "s_tp st1 s = Some (hd xs')" using mx Cons by (simp add: st1_def)
    have ne: "xs' \<noteq> []" using Cons by simp
    from Cons.IH[OF ne lk1 d hd1 blks(2)] obtain st' where
      st': "allocateMany cfg st1 s bs = Inr (xs', st')" "s_tp st' s = mem st1 (last xs')"
      by blast
    have "last xs' \<noteq> x" using xn ne last_in_set by metis
    then have "mem st1 (last xs') = mem st (last (x # xs'))" using ne by (simp add: st1_def)
    with st' a1 blks show ?thesis by simp
  qed
qed

lemma deallocateList_inv:
  assumes inv: "pool_inv cfg st L G" and s: "s < eTableSize cfg"
    and xs: "xs \<noteq> []" "linked (mem st) xs" "distinct xs"
    and new: "\<forall>a\<in>set xs. \<not> inLists cfg L G a"
  defines "st' \<equiv> st\<lparr>mem := (mem st)(last xs := s_tp st s),
                     s_tp := (s_tp st)(s := Some (hd xs))\<rparr>"
  shows "deallocateList cfg st s (Some (hd xs)) (Some (last xs)) = Inr st'"
    and "pool_inv cfg st' (L(s := xs @ L s)) G"
proof -
  show "deallocateList cfg st s (Some (hd xs)) (Some (last xs)) = Inr st'"
    using s by (simp add: deallocateList_def st'_def)
  have notin: "set xs \<inter> (set (L t) \<union> set (G t)) = {}" if "t < eTableSize cfg" for t
    using new not_inLists[OF _ that] by blast
  have lastin: "last xs \<in> set xs" using xs(1) by simp
  have "pool_inv cfg st' (L(s := xs @ L s)) (G(s := G s))"
  proof (rule pool_inv_update[OF inv s])
    show "mem st' a = mem st a" if "t < eTableSize cfg" "t \<noteq> s" "a \<in> set (L t) \<union> set (G t)" for t a
      using notin[OF that(1)] that(3) lastin by (auto simp: st'_def)
    show "chain (mem st') (s_tp st' s) (xs @ L s)"
      using linked_chain[OF xs(2,1,3) pool_inv_L[OF inv s]] notin[OF s]
      by (simp add: st'_def Int_Un_distrib)
    show "chain (mem st') (m_gp (s_pool st' s)) (G s)"
      using pool_inv_G[OF inv s] notin[OF s] lastin by (auto simp: st'_def chain_upd_other)
    show "m_size (s_pool st' s) = int (length (G s))"
      using pool_inv_count[OF inv s] by (simp add: st'_def)
    show "set (xs @ L s) \<inter> set (G s) = {}" using pool_inv_same[OF inv s] notin[OF s] by auto
    show "(set (xs @ L s) \<union> set (G s)) \<inter> (set (L t) \<union> set (G t)) = {}"
      if "t < eTableSize cfg" "t \<noteq> s" for t
      using pool_inv_other[OF inv s that] notin[OF that(1)] by auto
  qed (simp add: st'_def)
  then show "pool_inv cfg st' (L(s := xs @ L s)) G" by simp
qed

lemma deallocate_inv:
  assumes inv: "pool_inv cfg st L G" and s: "s < eTableSize cfg"
    and new: "\<not> inLists cfg L G a"
  defines "st' \<equiv> st\<lparr>mem := (mem st)(a := s_tp st s), s_tp := (s_tp st)(s := Some a)\<rparr>"
  shows "deallocate cfg st s (Some a) = Inr st'"
    and "pool_inv cfg st' (L(s := a # L s)) G"
proof -
  show "deallocate cfg st s (Some a) = Inr st'"
    using s by (simp add: deallocate_def st'_def)
  show "pool_inv cfg st' (L(s := a # L s)) G"
    using deallocateList_inv(2)[OF inv s, of "[a]"] new by (simp add: st'_def)
qed

subsection \<open>The refill\<close>

lemma fillPool_global:
  assumes "\<not> nts cfg" "nBytes < eTableSize cfg"
    and spb: "slicesPerBlock cfg (max nBytes (eMinBytes cfg mod 65536)) = (n, w)"
    and n: "1 \<le> n" "int n \<le> m_size (s_pool st nBytes)"
    and G: "chain (mem st) (m_gp (s_pool st nBytes)) G" "m_size (s_pool st nBytes) = int (length G)"
  shows "fillPool cfg st idx nBytes blk =
           Inr (hd G,
                st\<lparr>s_tp := (s_tp st)(idx := ((mem st)(G ! (n - 1) := None)) (hd G)),
                   s_pool := (s_pool st)(nBytes :=
                      \<lparr>m_gp = mem st (G ! (n - 1)),
                       m_size = wrapInt (m_size (s_pool st nBytes) - int n)\<rparr>),
                   mem := (mem st)(G ! (n - 1) := None)\<rparr>)"
proof -
  from n G have len: "n - 1 < length G" "G \<noteq> []" by auto
  then have adv: "advance (mem st) (m_gp (s_pool st nBytes)) (n - 1) = Inr (Some (G ! (n - 1)))"
    using G(1) by (simp add: advance_chain)
  from len G(1) have hd: "m_gp (s_pool st nBytes) = Some (hd G)" by (cases G) auto
  from adv have adv': "advance (mem st) (Some (hd G)) (n - Suc 0) = Inr (Some (G ! (n - Suc 0)))"
    by (simp add: hd)
  show ?thesis
    using assms(1,2) n(2)
    by (auto simp add: fillPool_def spb Let_def adv' popHead_def hd)
qed

lemma fillPool_block:
  assumes "\<not> nts cfg" "nBytes < eTableSize cfg"
    and spb: "slicesPerBlock cfg (max nBytes (eMinBytes cfg mod 65536)) = (n, w)"
    and n: "\<not> int n \<le> m_size (s_pool st nBytes)"
  shows "fillPool cfg st idx nBytes blk =
           Inr (blk,
                (carve cfg st w n)
                  \<lparr>mem := makeSlices ((mem st)(blockLink cfg blk := s_blocks st)) blk w n,
                   s_tp := (s_tp st)(idx :=
                      makeSlices ((mem st)(blockLink cfg blk := s_blocks st)) blk w n blk),
                   s_blocks := Some blk\<rparr>)"
  using assms(1,2) n
  by (simp add: fillPool_def spb Let_def popHead_def allocateBlock_def carve_def)

lemma fillPool_global_inv:
  assumes inv: "pool_inv cfg st L G" and s: "s < eTableSize cfg" and "\<not> nts cfg"
    and spb: "slicesPerBlock cfg (max s (eMinBytes cfg mod 65536)) = (n, w)"
    and n: "1 \<le> n" "int n \<le> m_size (s_pool st s)"
    and empty: "s_tp st s = None"
    and fit: "length (G s) < 2 ^ 31"
  defines "p \<equiv> G s ! (n - 1)"
  defines "st' \<equiv> st\<lparr>s_tp := (s_tp st)(s := ((mem st)(p := None)) (hd (G s))),
                     s_pool := (s_pool st)(s :=
                        \<lparr>m_gp = mem st p, m_size = m_size (s_pool st s) - int n\<rparr>),
                     mem := (mem st)(p := None)\<rparr>"
  shows "fillPool cfg st s s blk = Inr (hd (G s), st')"
    and "pool_inv cfg st' (L(s := tl (take n (G s)))) (G(s := drop n (G s)))"
    and "\<not> inLists cfg (L(s := tl (take n (G s)))) (G(s := drop n (G s))) (hd (G s))"
    and "chain (mem st') (Some (hd (G s))) (take n (G s))"
proof -
  note cG = pool_inv_G[OF inv s] and cnt = pool_inv_count[OF inv s]
  from n(2) cnt fit have "wrapInt (m_size (s_pool st s) - int n) = m_size (s_pool st s) - int n"
    by (intro wrapInt_id) simp_all
  with fillPool_global[OF \<open>\<not> nts cfg\<close> s spb n cG cnt]
  show "fillPool cfg st s s blk = Inr (hd (G s), st')"
    unfolding st'_def p_def by simp
  from n cnt have len: "n - 1 < length (G s)" "Suc (n - 1) = n" "G s \<noteq> []" by auto
  from cG have dG: "distinct (G s)" by (rule chain_distinct)
  from empty pool_inv_L[OF inv s] have Ls: "L s = []" by (cases "L s") auto
  have pin: "p \<in> set (G s)" unfolding p_def using len by simp
  from len cG have hdG: "m_gp (s_pool st s) = Some (hd (G s))" by (cases "G s") auto
  have tk: "chain ((mem st)(p := None)) (Some (hd (G s))) (take n (G s))"
    using chain_take[OF cG len(1)] len(2) hdG by (simp add: p_def)
  then show "chain (mem st') (Some (hd (G s))) (take n (G s))" by (simp add: st'_def)
  from len have tkne: "take n (G s) = hd (G s) # tl (take n (G s))"
    using n(1) by (cases "G s"; cases n) auto
  with tk have tl: "chain ((mem st)(p := None)) (((mem st)(p := None)) (hd (G s))) (tl (take n (G s)))"
    by (metis chain.simps(2))
  have "p \<notin> set (drop n (G s))" using nth_notin_drop[OF dG len(1)] len(2) by (simp add: p_def)
  then have dr: "chain ((mem st)(p := None)) (mem st p) (drop n (G s))"
    using chain_drop[OF cG len(1)] len(2) by (simp add: p_def chain_upd_other)
  have stk: "set (take n (G s)) = insert (hd (G s)) (set (tl (take n (G s))))"
    using tkne by (metis list.simps(15))
  have disj: "set (tl (take n (G s))) \<inter> set (drop n (G s)) = {}"
    using take_drop_disjoint[OF dG, of n] stk by blast
  have sub: "set (tl (take n (G s))) \<subseteq> set (G s)" "set (drop n (G s)) \<subseteq> set (G s)"
    using stk set_take_subset[of n "G s"] set_drop_subset[of n "G s"] by auto
  show inv': "pool_inv cfg st' (L(s := tl (take n (G s)))) (G(s := drop n (G s)))"
  proof (rule pool_inv_update[OF inv s])
    show "mem st' a = mem st a" if "t < eTableSize cfg" "t \<noteq> s" "a \<in> set (L t) \<union> set (G t)" for t a
      using pool_inv_other[OF inv s that(1,2)] that(3) pin by (auto simp: st'_def)
    show "chain (mem st') (s_tp st' s) (tl (take n (G s)))"
      using tl by (simp add: st'_def)
    show "chain (mem st') (m_gp (s_pool st' s)) (drop n (G s))"
      using dr by (simp add: st'_def)
    show "m_size (s_pool st' s) = int (length (drop n (G s)))"
      using cnt n by (simp add: st'_def)
    show "set (tl (take n (G s))) \<inter> set (drop n (G s)) = {}" by (rule disj)
    show "(set (tl (take n (G s))) \<union> set (drop n (G s))) \<inter> (set (L t) \<union> set (G t)) = {}"
      if "t < eTableSize cfg" "t \<noteq> s" for t
      using pool_inv_other[OF inv s that] sub by blast
  qed (simp add: st'_def)
  have hdtl: "hd (G s) \<notin> set (tl (take n (G s)))"
    using dG tkne by (metis distinct.simps(2) distinct_take)
  have hddr: "hd (G s) \<notin> set (drop n (G s))"
    using take_drop_disjoint[OF dG, of n] stk by blast
  have hdin: "hd (G s) \<in> set (G s)" using len by simp
  show "\<not> inLists cfg (L(s := tl (take n (G s)))) (G(s := drop n (G s))) (hd (G s))"
    unfolding inLists_def
  proof (intro notI, elim exE conjE)
    fix t assume t: "t < eTableSize cfg"
      and "hd (G s) \<in> set ((L(s := tl (take n (G s)))) t) \<or> hd (G s) \<in> set ((G(s := drop n (G s))) t)"
    then show False
      using hdtl hddr hdin pool_inv_other[OF inv s t] by (cases "t = s") auto
  qed
qed

lemma fillPool_block_inv:
  assumes inv: "pool_inv cfg st L G" and s: "s < eTableSize cfg" and "\<not> nts cfg"
    and spb: "slicesPerBlock cfg (max s (eMinBytes cfg mod 65536)) = (n, w)"
    and n: "1 \<le> n" "\<not> int n \<le> m_size (s_pool st s)"
    and empty: "s_tp st s = None"
    and fresh: "freshBlock cfg L G blk"
  defines "M \<equiv> makeSlices ((mem st)(blockLink cfg blk := s_blocks st)) blk w n"
  defines "st' \<equiv> (carve cfg st w n)\<lparr>mem := M, s_tp := (s_tp st)(s := M blk), s_blocks := Some blk\<rparr>"
  defines "sl \<equiv> sliceAddrs blk w (max 2 n)"
  shows "fillPool cfg st s s blk = Inr (blk, st')"
    and "pool_inv cfg st' (L(s := tl sl)) G"
    and "\<not> inLists cfg (L(s := tl sl)) G blk"
    and "chain (mem st') (Some blk) sl"
    and "2 \<le> n \<Longrightarrow> mem st' (blockLink cfg blk) = s_blocks st"
proof -
  show "fillPool cfg st s s blk = Inr (blk, st')"
    unfolding st'_def M_def by (rule fillPool_block[OF \<open>\<not> nts cfg\<close> s spb n(2)])
  note f = slicesPerBlock_facts[OF spb n(1)]
  have link: "blk + n * w \<le> blockLink cfg blk" using f(3) by (simp add: blockLink_def)
  have rng: "blk \<le> a \<and> a \<le> blockLink cfg blk" if "a \<in> set sl" for a
  proof (cases "2 \<le> n")
    case True
    then have "sl = sliceAddrs blk w n" by (simp add: sl_def max_def)
    with sliceAddrs_range[OF _ f(1), of a blk n] that link show ?thesis by simp
  next
    case False
    with n(1) have n1: "n = 1" by simp
    then have "max 2 n = 2" by simp
    then have "sl = sliceAddrs blk w 2" by (simp only: sl_def)
    then have "sl = [blk, blk + w]" by (simp only: sliceAddrs_two)
    with that link n1 show ?thesis by auto
  qed
  have Mframe: "M a = ((mem st)(blockLink cfg blk := s_blocks st)) a" if "a \<notin> set sl" for a
    unfolding M_def using that by (simp add: makeSlices_frame sl_def)
  show "mem st' (blockLink cfg blk) = s_blocks st" if "2 \<le> n"
  proof -
    from that have "sl = sliceAddrs blk w n" by (simp add: sl_def max_def)
    with sliceAddrs_range[OF _ f(1), of "blockLink cfg blk" blk n] link
    have "blockLink cfg blk \<notin> set sl" by auto
    then show ?thesis by (simp add: Mframe st'_def)
  qed
  have ch: "chain M (Some blk) sl"
    unfolding M_def sl_def by (rule makeSlices_chain_max[OF f(1)])
  then show "chain (mem st') (Some blk) sl" by (simp add: st'_def)
  obtain k where k: "max 2 n = Suc k" by (cases "max 2 n") auto
  have sl: "sl = blk # tl sl"
    by (simp add: sl_def k sliceAddrs_Suc)
  with ch have tlc: "chain M (M blk) (tl sl)" by (metis chain.simps(2))
  from ch have dsl: "distinct sl" by (rule chain_distinct)
  have "blk \<le> blockLink cfg blk" by (simp add: blockLink_def)
  then have old: "a \<notin> set sl \<and> a \<noteq> blockLink cfg blk"
    if "t < eTableSize cfg" "a \<in> set (L t) \<union> set (G t)" for t a
    using freshBlock_notin[OF fresh that] rng[of a] by auto
  from empty pool_inv_L[OF inv s] have Ls: "L s = []" by (cases "L s") auto
  have Mold: "M a = mem st a" if "t < eTableSize cfg" "a \<in> set (L t) \<union> set (G t)" for t a
    using old[OF that] by (simp add: Mframe)
  have stl: "set (tl sl) \<subseteq> set sl"
    by (metis list.set_sel(2) subsetI tl_Nil)
  have "pool_inv cfg st' (L(s := tl sl)) (G(s := G s))"
  proof (rule pool_inv_update[OF inv s])
    show "mem st' a = mem st a" if "t < eTableSize cfg" "t \<noteq> s" "a \<in> set (L t) \<union> set (G t)" for t a
      using Mold[OF that(1,3)] by (simp add: st'_def)
    show "s_tp st' t = s_tp st t \<and> s_pool st' t = s_pool st t" if "t \<noteq> s" for t
      using that by (simp add: st'_def carve_def)
    show "chain (mem st') (s_tp st' s) (tl sl)"
      using tlc by (simp add: st'_def)
    have "chain M (m_gp (s_pool st s)) (G s) = chain (mem st) (m_gp (s_pool st s)) (G s)"
      using Mold[OF s] by (intro chain_cong_mem) auto
    then show "chain (mem st') (m_gp (s_pool st' s)) (G s)"
      using pool_inv_G[OF inv s] by (simp add: st'_def carve_def)
    show "m_size (s_pool st' s) = int (length (G s))"
      using pool_inv_count[OF inv s] by (simp add: st'_def carve_def)
    show "set (tl sl) \<inter> set (G s) = {}"
      using old[OF s] stl by blast
    show "(set (tl sl) \<union> set (G s)) \<inter> (set (L t) \<union> set (G t)) = {}"
      if "t < eTableSize cfg" "t \<noteq> s" for t
      using old[OF that(1)] stl pool_inv_other[OF inv s that] by blast
  qed
  then show "pool_inv cfg st' (L(s := tl sl)) G" by simp
  have "blk \<notin> set (tl sl)" using dsl sl by (metis distinct.simps(2))
  moreover have "blk \<in> set sl" using sl by (metis list.set_intros(1))
  ultimately show "\<not> inLists cfg (L(s := tl sl)) G blk"
    using old by (auto simp: inLists_def)
qed

lemma allocate_count:
  assumes inv: "pool_inv cfg st L G" and "\<not> nts cfg" "eTableSize cfg < 65536"
    and s: "s < eTableSize cfg"
    and spb: "slicesPerBlock cfg (max s (eMinBytes cfg mod 65536)) = (n, w)" and n: "1 \<le> n"
    and fresh: "freshBlock cfg L G blk"
    and fit: "length (G s) < 2 ^ 31"
  shows "\<exists>p st' L' G'. allocate cfg st s blk = Inr (p, st') \<and> pool_inv cfg st' L' G' \<and>
           (if s_tp st s = None \<and> int n \<le> m_size (s_pool st s)
            then G' = G(s := drop n (G s)) \<and>
                 m_size (s_pool st' s) = m_size (s_pool st s) - int n
            else G' = G \<and> s_pool st' = s_pool st)"
proof (cases "s_tp st s")
  case (Some p)
  let ?st' = "st\<lparr>s_tp := (s_tp st)(s := mem st p), mem := (mem st)(p := None)\<rparr>"
  have "allocate cfg st s blk = Inr (p, ?st')" by (rule allocate_fast(1)[OF inv s Some])
  moreover have "pool_inv cfg ?st' (L(s := tl (L s))) G" by (rule allocate_fast(2)[OF inv s Some])
  moreover have "s_pool ?st' = s_pool st" by simp
  ultimately have "\<exists>p st' L' G'. allocate cfg st s blk = Inr (p, st') \<and> pool_inv cfg st' L' G' \<and>
                     G' = G \<and> s_pool st' = s_pool st"
    by blast
  then show ?thesis using Some by simp
next
  case None
  have eq: "allocate cfg st s blk = fillPool cfg st s s blk"
    using s assms(3) None by (simp add: allocate_def)
  show ?thesis
  proof (cases "int n \<le> m_size (s_pool st s)")
    case True
    let ?st' = "st\<lparr>s_tp := (s_tp st)(s := ((mem st)(G s ! (n - 1) := None)) (hd (G s))),
                     s_pool := (s_pool st)(s :=
                        \<lparr>m_gp = mem st (G s ! (n - 1)), m_size = m_size (s_pool st s) - int n\<rparr>),
                     mem := (mem st)(G s ! (n - 1) := None)\<rparr>"
    have "allocate cfg st s blk = Inr (hd (G s), ?st')"
      unfolding eq by (rule fillPool_global_inv(1)[OF inv s assms(2) spb n True None fit])
    moreover have "pool_inv cfg ?st' (L(s := tl (take n (G s)))) (G(s := drop n (G s)))"
      by (rule fillPool_global_inv(2)[OF inv s assms(2) spb n True None fit])
    moreover have "m_size (s_pool ?st' s) = m_size (s_pool st s) - int n" by simp
    ultimately have "\<exists>p st' L' G'. allocate cfg st s blk = Inr (p, st') \<and>
        pool_inv cfg st' L' G' \<and> G' = G(s := drop n (G s)) \<and>
        m_size (s_pool st' s) = m_size (s_pool st s) - int n"
      by blast
    then show ?thesis using None True by simp
  next
    case False
    let ?M = "makeSlices ((mem st)(blockLink cfg blk := s_blocks st)) blk w n"
    let ?st' = "(carve cfg st w n)\<lparr>mem := ?M, s_tp := (s_tp st)(s := ?M blk), s_blocks := Some blk\<rparr>"
    have "allocate cfg st s blk = Inr (blk, ?st')"
      unfolding eq by (rule fillPool_block_inv(1)[OF inv s assms(2) spb n False None fresh])
    moreover have "pool_inv cfg ?st' (L(s := tl (sliceAddrs blk w (max 2 n)))) G"
      by (rule fillPool_block_inv(2)[OF inv s assms(2) spb n False None fresh])
    moreover have "s_pool ?st' = s_pool st" by (simp add: carve_def)
    ultimately have "\<exists>p st' L' G'. allocate cfg st s blk = Inr (p, st') \<and>
        pool_inv cfg st' L' G' \<and> G' = G \<and> s_pool st' = s_pool st"
      by blast
    then show ?thesis using False by simp
  qed
qed

text \<open>
  The refill for a size class of which a block holds at least two slices, where the
  global list is the chain \<open>G s\<close> with the stored count as its length: with at least
  \<open>nSlices\<close> elements in the global list, the first \<open>nSlices\<close> of them are detached as
  a null-terminated chain of their own and the count drops by \<open>nSlices\<close>; otherwise the
  one new block is put in front of the block chain and sliced. In both cases the first
  element of the new local list is returned and the rest stays as the local list.
\<close>

lemma fillPool_refill:
  assumes "\<not> nts cfg" "eTableSize cfg \<le> 65536"
    and s: "s < eTableSize cfg"
    and "s_tp st s = None"
    and spb: "slicesPerBlock cfg (max s (eMinBytes cfg mod 65536)) = (nSlices, nWords)"
    and n: "2 \<le> nSlices"
    and ci: "count_inv cfg st G"
    and fit: "length (G s) < 2 ^ 31"
  shows "allocate cfg st s blk = fillPool cfg st s s blk \<and>
    (if int nSlices \<le> m_size (s_pool st s) then
       \<exists>st'. fillPool cfg st s s blk = Inr (hd (G s), st') \<and>
          G s = take nSlices (G s) @ drop nSlices (G s) \<and>
          length (take nSlices (G s)) = nSlices \<and>
          chain (mem st') (Some (hd (G s))) (take nSlices (G s)) \<and>
          chain (mem st') (s_tp st' s) (tl (take nSlices (G s))) \<and>
          chain (mem st') (m_gp (s_pool st' s)) (drop nSlices (G s)) \<and>
          m_size (s_pool st' s) = m_size (s_pool st s) - int nSlices \<and>
          s_blocks st' = s_blocks st
     else
       \<exists>st'. fillPool cfg st s s blk = Inr (blk, st') \<and>
          s_blocks st' = Some blk \<and> mem st' (blockLink cfg blk) = s_blocks st \<and>
          chain (mem st') (Some blk) (sliceAddrs blk nWords nSlices) \<and>
          chain (mem st') (s_tp st' s) (tl (sliceAddrs blk nWords nSlices)) \<and>
          s_pool st' = s_pool st)"
proof -
  have eq: "allocate cfg st s blk = fillPool cfg st s s blk"
    using assms(2,3,4) by (simp add: allocate_def)
  from n have n1: "1 \<le> nSlices" by simp
  note f = slicesPerBlock_facts[OF spb n1]
  show ?thesis
  proof (cases "int nSlices \<le> m_size (s_pool st s)")
    case True
    from ci s have cG: "chain (mem st) (m_gp (s_pool st s)) (G s)"
      and cnt: "m_size (s_pool st s) = int (length (G s))"
      by (simp_all add: count_inv_def)
    define p where "p = G s ! (nSlices - 1)"
    define st' where "st' = st\<lparr>s_tp := (s_tp st)(s := ((mem st)(p := None)) (hd (G s))),
                     s_pool := (s_pool st)(s :=
                        \<lparr>m_gp = mem st p, m_size = m_size (s_pool st s) - int nSlices\<rparr>),
                     mem := (mem st)(p := None)\<rparr>"
    from True cnt fit
    have "wrapInt (m_size (s_pool st s) - int nSlices) = m_size (s_pool st s) - int nSlices"
      by (intro wrapInt_id) simp_all
    with fillPool_global[OF assms(1) s spb n1 True cG cnt]
    have res: "fillPool cfg st s s blk = Inr (hd (G s), st')"
      unfolding st'_def p_def by simp
    from True cnt n1 have len: "nSlices - 1 < length (G s)" "Suc (nSlices - 1) = nSlices"
      "nSlices \<le> length (G s)" by auto
    from cG have dG: "distinct (G s)" by (rule chain_distinct)
    from len cG have hdG: "m_gp (s_pool st s) = Some (hd (G s))" by (cases "G s") auto
    have tk: "chain ((mem st)(p := None)) (Some (hd (G s))) (take nSlices (G s))"
      using chain_take[OF cG len(1)] len(2) hdG by (simp add: p_def)
    from len n1 have "take nSlices (G s) = hd (G s) # tl (take nSlices (G s))"
      by (cases "G s"; cases nSlices) auto
    with tk have tl: "chain ((mem st)(p := None)) (((mem st)(p := None)) (hd (G s)))
                        (tl (take nSlices (G s)))"
      by (metis chain.simps(2))
    have "p \<notin> set (drop nSlices (G s))"
      using nth_notin_drop[OF dG len(1)] len(2) by (simp add: p_def)
    then have dr: "chain ((mem st)(p := None)) (mem st p) (drop nSlices (G s))"
      using chain_drop[OF cG len(1)] len(2) by (simp add: p_def chain_upd_other)
    have "\<exists>st'. fillPool cfg st s s blk = Inr (hd (G s), st') \<and>
          G s = take nSlices (G s) @ drop nSlices (G s) \<and>
          length (take nSlices (G s)) = nSlices \<and>
          chain (mem st') (Some (hd (G s))) (take nSlices (G s)) \<and>
          chain (mem st') (s_tp st' s) (tl (take nSlices (G s))) \<and>
          chain (mem st') (m_gp (s_pool st' s)) (drop nSlices (G s)) \<and>
          m_size (s_pool st' s) = m_size (s_pool st s) - int nSlices \<and>
          s_blocks st' = s_blocks st"
      using res tk tl dr len(3) by (intro exI[of _ st']) (simp add: st'_def)
    then have "allocate cfg st s blk = fillPool cfg st s s blk \<and>
       (\<exists>st'. fillPool cfg st s s blk = Inr (hd (G s), st') \<and>
          G s = take nSlices (G s) @ drop nSlices (G s) \<and>
          length (take nSlices (G s)) = nSlices \<and>
          chain (mem st') (Some (hd (G s))) (take nSlices (G s)) \<and>
          chain (mem st') (s_tp st' s) (tl (take nSlices (G s))) \<and>
          chain (mem st') (m_gp (s_pool st' s)) (drop nSlices (G s)) \<and>
          m_size (s_pool st' s) = m_size (s_pool st s) - int nSlices \<and>
          s_blocks st' = s_blocks st)"
      using eq by (rule conjI[rotated])
    then show ?thesis by (simp only: True if_True)
  next
    case False
    define M where "M = makeSlices ((mem st)(blockLink cfg blk := s_blocks st)) blk nWords nSlices"
    define st' where "st' = (carve cfg st nWords nSlices)
                       \<lparr>mem := M, s_tp := (s_tp st)(s := M blk), s_blocks := Some blk\<rparr>"
    have res: "fillPool cfg st s s blk = Inr (blk, st')"
      unfolding st'_def M_def by (rule fillPool_block[OF assms(1) s spb False])
    have link: "blk + nSlices * nWords \<le> blockLink cfg blk" using f(3) by (simp add: blockLink_def)
    have "blockLink cfg blk \<notin> set (sliceAddrs blk nWords (max 2 nSlices))"
      using sliceAddrs_range[OF _ f(1), of "blockLink cfg blk" blk nSlices] link n
      by (auto simp: max_def)
    then have Mlink: "M (blockLink cfg blk) = s_blocks st"
      unfolding M_def by (simp add: makeSlices_frame)
    have ch: "chain M (Some blk) (sliceAddrs blk nWords nSlices)"
      unfolding M_def by (rule makeSlices_chain[OF n f(1)])
    from n obtain k where k: "nSlices = Suc k" by (cases nSlices) auto
    have "sliceAddrs blk nWords nSlices = blk # tl (sliceAddrs blk nWords nSlices)"
      by (simp add: k sliceAddrs_Suc)
    with ch have tlc: "chain M (M blk) (tl (sliceAddrs blk nWords nSlices))"
      by (metis chain.simps(2))
    have "\<exists>st'. fillPool cfg st s s blk = Inr (blk, st') \<and>
          s_blocks st' = Some blk \<and> mem st' (blockLink cfg blk) = s_blocks st \<and>
          chain (mem st') (Some blk) (sliceAddrs blk nWords nSlices) \<and>
          chain (mem st') (s_tp st' s) (tl (sliceAddrs blk nWords nSlices)) \<and>
          s_pool st' = s_pool st"
      using res Mlink ch tlc by (intro exI[of _ st']) (simp add: st'_def carve_def)
    then have "allocate cfg st s blk = fillPool cfg st s s blk \<and>
       (\<exists>st'. fillPool cfg st s s blk = Inr (blk, st') \<and>
          s_blocks st' = Some blk \<and> mem st' (blockLink cfg blk) = s_blocks st \<and>
          chain (mem st') (Some blk) (sliceAddrs blk nWords nSlices) \<and>
          chain (mem st') (s_tp st' s) (tl (sliceAddrs blk nWords nSlices)) \<and>
          s_pool st' = s_pool st)"
      using eq by (rule conjI[rotated])
    then show ?thesis by (simp only: False if_False)
  qed
qed

section \<open>Counting the bytes in the lists\<close>

lemma threadWalk_chain:
  "chain (mem st) (s_tp st sz) xs \<Longrightarrow> b < 2 ^ 64 \<Longrightarrow>
   threadWalk st sz b
     = Some (st\<lparr>s_tp := (s_tp st)(sz := None)\<rparr>, (b + length xs * sz) mod 2 ^ 64)"
proof (induction xs arbitrary: st b)
  case Nil
  then have "s_tp st sz = None" by simp
  moreover from this have "(s_tp st)(sz := None) = s_tp st" by (metis fun_upd_triv)
  ultimately show ?case using Nil.prems(2) by (subst threadWalk.simps) simp
next
  case (Cons x xs)
  let ?st1 = "st\<lparr>s_tp := (s_tp st)(sz := mem st x)\<rparr>"
  from Cons.prems have hd: "s_tp st sz = Some x" and tl: "chain (mem ?st1) (s_tp ?st1 sz) xs"
    by simp_all
  have lt: "addSize b sz < 2 ^ 64" by (simp add: addSize_def)
  have "threadWalk st sz b = threadWalk ?st1 sz (addSize b sz)"
    using hd by (subst threadWalk.simps) simp
  also have "\<dots> = Some (?st1\<lparr>s_tp := (s_tp ?st1)(sz := None)\<rparr>,
                        (addSize b sz + length xs * sz) mod 2 ^ 64)"
    by (rule Cons.IH[OF tl lt])
  also have "(addSize b sz + length xs * sz) mod 2 ^ 64 = (b + length (x # xs) * sz) mod 2 ^ 64"
    by (simp add: addSize_def mod_add_left_eq add.assoc)
  finally have "threadWalk st sz b =
      Some (?st1\<lparr>s_tp := (s_tp ?st1)(sz := None)\<rparr>, (b + length (x # xs) * sz) mod 2 ^ 64)" .
  then show ?case unfolding fun_upd_def by (simp cong: if_cong)
qed

lemma threadWalkFrom_chains:
  "distinct ss \<Longrightarrow> \<forall>sz\<in>set ss. chain (mem st) (s_tp st sz) (L sz) \<Longrightarrow> b < 2 ^ 64 \<Longrightarrow>
   threadWalkFrom st ss b =
     Some (st\<lparr>s_tp := (\<lambda>t. if t \<in> set ss then None else s_tp st t)\<rparr>,
           (b + (\<Sum>sz\<leftarrow>ss. length (L sz) * sz)) mod 2 ^ 64)"
proof (induction ss arbitrary: st b)
  case Nil
  then show ?case by simp
next
  case (Cons sz ss)
  let ?st1 = "st\<lparr>s_tp := (s_tp st)(sz := None)\<rparr>"
  let ?b1 = "(b + length (L sz) * sz) mod 2 ^ 64"
  have w: "threadWalk st sz b = Some (?st1, ?b1)"
    using Cons.prems(2,3) by (intro threadWalk_chain) simp_all
  have lt: "?b1 < 2 ^ 64" by simp
  have "\<forall>t\<in>set ss. chain (mem ?st1) (s_tp ?st1 t) (L t)"
    using Cons.prems by auto
  with Cons.prems(1) lt have
    "threadWalkFrom ?st1 ss ?b1 =
       Some (?st1\<lparr>s_tp := (\<lambda>t. if t \<in> set ss then None else s_tp ?st1 t)\<rparr>,
             (?b1 + (\<Sum>t\<leftarrow>ss. length (L t) * t)) mod 2 ^ 64)"
    by (intro Cons.IH) simp_all
  moreover have "(\<lambda>t. if t \<in> set ss then None else s_tp ?st1 t)
                 = (\<lambda>t. if t \<in> set (sz # ss) then None else s_tp st t)"
    by (auto simp: fun_eq_iff)
  moreover have "(?b1 + (\<Sum>t\<leftarrow>ss. length (L t) * t)) mod 2 ^ 64
                 = (b + (\<Sum>t\<leftarrow>sz # ss. length (L t) * t)) mod 2 ^ 64"
    by (simp add: mod_add_left_eq add.assoc)
  ultimately show ?case using w by simp
qed

lemma memoryInThreadFreeList_chains:
  assumes "\<forall>s<eTableSize cfg. chain (mem st) (s_tp st s) (L s)"
    and "threadBytes cfg L < 2 ^ 64"
  shows "memoryInThreadFreeList cfg st = Some (clearHeads cfg st, threadBytes cfg L)"
proof -
  have "\<forall>sz\<in>set [1..<eTableSize cfg]. chain (mem st) (s_tp st sz) (L sz)"
    using assms by simp
  from threadWalkFrom_chains[OF distinct_upt this, of 0] assms(2)
  show ?thesis
    by (simp add: memoryInThreadFreeList_def clearHeads_def threadBytes_def)
qed

lemma sum_list_single:
  "distinct ss \<Longrightarrow> s \<in> set ss \<Longrightarrow> (\<Sum>x\<leftarrow>ss. if x = s then c else 0) = (c::nat)"
  by (induction ss) (auto simp: sum_list_0)

lemma threadBytes_single:
  assumes "0 < s" "s < eTableSize cfg"
  shows "threadBytes cfg ((\<lambda>_. [])(s := xs)) = length xs * s"
proof -
  have "(\<Sum>sz\<leftarrow>[1..<eTableSize cfg]. length (((\<lambda>_. [])(s := xs)) sz) * sz)
        = (\<Sum>sz\<leftarrow>[1..<eTableSize cfg]. if sz = s then length xs * s else 0)"
    by (intro arg_cong[where f=sum_list] map_cong) auto
  also have "\<dots> = length xs * s" using assms by (intro sum_list_single) auto
  finally show ?thesis by (simp add: threadBytes_def)
qed

lemma unguarded_sum:
  "unguardedMemGlobalFreelist cfg st
   = (\<Sum>sz\<leftarrow>[1..<eTableSize cfg]. toSize (wrapInt (m_size (s_pool st sz) * int sz))) mod 2 ^ 64"
  unfolding unguardedMemGlobalFreelist_def
  by (subst fold_addSize) simp_all

lemma unguarded_zero:
  "\<forall>sz<eTableSize cfg. m_size (s_pool st sz) = 0 \<Longrightarrow> unguardedMemGlobalFreelist cfg st = 0"
proof -
  assume z: "\<forall>sz<eTableSize cfg. m_size (s_pool st sz) = 0"
  have "map (\<lambda>sz. toSize (wrapInt (m_size (s_pool st sz) * int sz))) [1..<eTableSize cfg]
        = map (\<lambda>_. 0) [1..<eTableSize cfg]"
    using z by (intro map_cong) (auto simp: toSize_def wrapInt_def)
  then have "(\<Sum>sz\<leftarrow>[1..<eTableSize cfg]. toSize (wrapInt (m_size (s_pool st sz) * int sz)))
             = sum_list (map (\<lambda>_. 0) [1..<eTableSize cfg])"
    by (rule arg_cong)
  then show ?thesis by (simp only: unguarded_sum sum_list_0 mod_0)
qed

lemma bytes_bounded:
  assumes "\<forall>s<eTableSize cfg. length (X s) * s < 2 ^ 31" "eTableSize cfg \<le> 65536"
  shows "(\<Sum>sz\<leftarrow>[1..<eTableSize cfg]. length (X sz) * sz) < 2 ^ 64"
proof -
  have "(\<Sum>sz\<leftarrow>[1..<eTableSize cfg]. length (X sz) * sz)
        \<le> length [1..<eTableSize cfg] * 2 ^ 31"
    using assms(1) by (intro sum_list_bounded) (auto simp: less_imp_le)
  also have "\<dots> \<le> 65536 * 2 ^ 31" using assms(2) by simp
  also have "\<dots> < (2::nat) ^ 64" by simp
  finally show ?thesis .
qed

lemma unguarded_count:
  assumes "count_inv cfg st G" "\<forall>s<eTableSize cfg. length (G s) * s < 2 ^ 31"
    and "eTableSize cfg \<le> 65536"
  shows "unguardedMemGlobalFreelist cfg st = (\<Sum>sz\<leftarrow>[1..<eTableSize cfg]. length (G sz) * sz)"
proof -
  have "toSize (wrapInt (m_size (s_pool st sz) * int sz)) = length (G sz) * sz"
    if "sz \<in> set [1..<eTableSize cfg]" for sz
  proof -
    from that have sz: "sz < eTableSize cfg" by simp
    with assms(1) have "m_size (s_pool st sz) = int (length (G sz))"
      by (simp add: count_inv_def)
    then have e: "m_size (s_pool st sz) * int sz = int (length (G sz) * sz)" by simp
    have b: "length (G sz) * sz < 2 ^ 31" using assms(2) sz by simp
    then have "length (G sz) * sz < 2 ^ 64" by (rule less_trans) simp
    then show ?thesis by (simp only: e wrapInt_nat[OF b] toSize_nat)
  qed
  then have "map (\<lambda>sz. toSize (wrapInt (m_size (s_pool st sz) * int sz))) [1..<eTableSize cfg]
        = map (\<lambda>sz. length (G sz) * sz) [1..<eTableSize cfg]"
    by (intro map_cong) auto
  then have "(\<Sum>sz\<leftarrow>[1..<eTableSize cfg]. toSize (wrapInt (m_size (s_pool st sz) * int sz)))
             = (\<Sum>sz\<leftarrow>[1..<eTableSize cfg]. length (G sz) * sz)"
    by (rule arg_cong)
  with bytes_bounded[OF assms(2,3)] show ?thesis
    by (simp only: unguarded_sum mod_less)
qed

lemma sum_bytes_append:
  "(\<Sum>sz\<leftarrow>ss. length (L sz @ G sz) * sz)
   = (\<Sum>sz\<leftarrow>ss. length (G sz) * sz) + (\<Sum>sz\<leftarrow>ss. length (L sz) * sz)"
  by (induction ss) (simp_all add: algebra_simps)

lemma threadBytes_fit:
  assumes "bytesFit cfg L G" "eTableSize cfg \<le> 65536"
  shows "threadBytes cfg L < 2 ^ 64"
proof -
  have "\<forall>s<eTableSize cfg. length (L s) * s < 2 ^ 31"
  proof (intro allI impI)
    fix s assume "s < eTableSize cfg"
    with assms(1) have a: "(length (L s) + length (G s)) * s < 2 ^ 31" by (simp add: bytesFit_def)
    have "length (L s) * s \<le> (length (L s) + length (G s)) * s" by (simp add: add_mult_distrib)
    from this a show "length (L s) * s < 2 ^ 31" by (rule le_less_trans)
  qed
  from bytes_bounded[OF this assms(2)] show ?thesis by (simp add: threadBytes_def)
qed

section \<open>Flushing\<close>

lemma findTail_chain:
  "chain m (Some h) xs \<Longrightarrow> - (2 ^ 31) \<le> k \<Longrightarrow> k + int (length xs) - 1 < 2 ^ 31 \<Longrightarrow>
   findTail m h k = Some (last xs, k + int (length xs) - 1)"
proof (induction xs arbitrary: h k)
  case Nil
  then show ?case by simp
next
  case (Cons x xs)
  then have x: "x = h" and tl: "chain m (m h) xs" by simp_all
  show ?case
  proof (cases xs)
    case Nil
    with tl have "m h = None" by simp
    then show ?thesis using Nil x by (subst findTail.simps) simp
  next
    case (Cons y ys)
    with tl have my: "m h = Some y" and c: "chain m (Some y) xs" by simp_all
    from Cons.prems(2,3) Cons have k1: "wrapInt (k + 1) = k + 1"
      by (intro wrapInt_id) simp_all
    have "findTail m h k = findTail m y (k + 1)"
      using my k1 by (subst findTail.simps) simp
    also have "\<dots> = Some (last xs, k + 1 + int (length xs) - 1)"
      using Cons.prems(2,3) by (intro Cons.IH[OF c]) simp_all
    finally show ?thesis using Cons by simp
  qed
qed

lemma flushClass_inv:
  assumes inv: "pool_inv cfg st L G" and s: "s < eTableSize cfg"
    and fit: "length (L s) + length (G s) < 2 ^ 31"
  shows "\<exists>st'. flushClass st s = Some st' \<and>
           pool_inv cfg st' (L(s := [])) (G(s := L s @ G s)) \<and>
           s_blocks st' = s_blocks st \<and> s_nettoAlloc st' = s_nettoAlloc st \<and>
           (\<forall>t. t \<noteq> s \<longrightarrow> s_tp st' t = s_tp st t \<and> s_pool st' t = s_pool st t) \<and>
           m_size (s_pool st' s) = m_size (s_pool st s) + int (length (L s))"
proof (cases "L s = []")
  case True
  with pool_inv_L[OF inv s] have "s_tp st s = None" by simp
  then have "flushClass st s = Some st" by (simp add: flushClass_def)
  moreover have "L(s := []) = L" "G(s := L s @ G s) = G" using True by auto
  ultimately show ?thesis using inv True by simp
next
  case False
  define st' where "st' = st\<lparr>s_tp := (s_tp st)(s := None),
                     mem := (mem st)(last (L s) := m_gp (s_pool st s)),
                     s_pool := (s_pool st)(s := \<lparr>m_gp = Some (hd (L s)),
                        m_size = m_size (s_pool st s) + int (length (L s))\<rparr>)\<rparr>"
  note cL = pool_inv_L[OF inv s] and cG = pool_inv_G[OF inv s]
  from False cL have hd: "s_tp st s = Some (hd (L s))" by (cases "L s") auto
  with cL fit have "findTail (mem st) (hd (L s)) 1 = Some (last (L s), 1 + int (length (L s)) - 1)"
    by (intro findTail_chain) simp_all
  moreover have "wrapInt (m_size (s_pool st s) + int (length (L s)))
                 = m_size (s_pool st s) + int (length (L s))"
    using fit pool_inv_count[OF inv s] by (intro wrapInt_id) simp_all
  ultimately have res: "flushClass st s = Some st'"
    using hd by (simp add: flushClass_def st'_def Let_def)
  have lastin: "last (L s) \<in> set (L s)" using False by simp
  have sp: "chain ((mem st)(last (L s) := m_gp (s_pool st s))) (Some (hd (L s))) (L s @ G s)"
    using chain_splice[OF cL False cG pool_inv_same[OF inv s]] hd by simp
  have "pool_inv cfg st' (L(s := [])) (G(s := L s @ G s))"
  proof (rule pool_inv_update[OF inv s])
    show "mem st' a = mem st a" if "t < eTableSize cfg" "t \<noteq> s" "a \<in> set (L t) \<union> set (G t)" for t a
      using pool_inv_other[OF inv s that(1,2)] that(3) lastin by (auto simp: st'_def)
    show "chain (mem st') (s_tp st' s) []" by (simp add: st'_def)
    show "chain (mem st') (m_gp (s_pool st' s)) (L s @ G s)" using sp by (simp add: st'_def)
    show "m_size (s_pool st' s) = int (length (L s @ G s))"
      using pool_inv_count[OF inv s] by (simp add: st'_def)
    show "(set [] \<union> set (L s @ G s)) \<inter> (set (L t) \<union> set (G t)) = {}"
      if "t < eTableSize cfg" "t \<noteq> s" for t
      using pool_inv_other[OF inv s that] by auto
  qed (simp_all add: st'_def)
  with res show ?thesis by (simp add: st'_def)
qed

lemma flushFrom_inv:
  "distinct ss \<Longrightarrow> \<forall>s\<in>set ss. s < eTableSize cfg \<and> length (L s) + length (G s) < 2 ^ 31 \<Longrightarrow>
   pool_inv cfg st L G \<Longrightarrow>
   \<exists>st'. flushFrom st ss = Some st' \<and>
     pool_inv cfg st' (\<lambda>t. if t \<in> set ss then [] else L t)
                      (\<lambda>t. if t \<in> set ss then L t @ G t else G t) \<and>
     s_blocks st' = s_blocks st \<and> s_nettoAlloc st' = s_nettoAlloc st \<and>
     (\<forall>t. t \<notin> set ss \<longrightarrow> s_tp st' t = s_tp st t \<and> s_pool st' t = s_pool st t)"
proof (induction ss arbitrary: st L G)
  case Nil
  then show ?case by simp
next
  case (Cons s ss)
  from Cons.prems have s: "s < eTableSize cfg" and d: "distinct ss" "s \<notin> set ss"
    and fit: "length (L s) + length (G s) < 2 ^ 31"
    and ss: "\<forall>t\<in>set ss. t < eTableSize cfg \<and> length (L t) + length (G t) < 2 ^ 31" by auto
  from d(2) ss have ss': "\<forall>t\<in>set ss. t < eTableSize cfg \<and>
      length ((L(s := [])) t) + length ((G(s := L s @ G s)) t) < 2 ^ 31"
    by auto
  from flushClass_inv[OF Cons.prems(3) s fit] obtain st1 where
    f: "flushClass st s = Some st1"
    and inv1: "pool_inv cfg st1 (L(s := [])) (G(s := L s @ G s))"
    and fr1: "s_blocks st1 = s_blocks st" "s_nettoAlloc st1 = s_nettoAlloc st"
      "\<forall>t. t \<noteq> s \<longrightarrow> s_tp st1 t = s_tp st t \<and> s_pool st1 t = s_pool st t"
    by blast
  from Cons.IH[OF d(1) ss' inv1] obtain st' where
    r: "flushFrom st1 ss = Some st'"
    and inv': "pool_inv cfg st' (\<lambda>t. if t \<in> set ss then [] else (L(s := [])) t)
                 (\<lambda>t. if t \<in> set ss then (L(s := [])) t @ (G(s := L s @ G s)) t
                       else (G(s := L s @ G s)) t)"
    and fr': "s_blocks st' = s_blocks st1" "s_nettoAlloc st' = s_nettoAlloc st1"
      "\<forall>t. t \<notin> set ss \<longrightarrow> s_tp st' t = s_tp st1 t \<and> s_pool st' t = s_pool st1 t"
    by blast
  have e1: "(\<lambda>t. if t \<in> set ss then [] else (L(s := [])) t)
            = (\<lambda>t. if t \<in> set (s # ss) then [] else L t)"
    by (auto simp: fun_eq_iff)
  have e2: "(\<lambda>t. if t \<in> set ss then (L(s := [])) t @ (G(s := L s @ G s)) t
                  else (G(s := L s @ G s)) t)
            = (\<lambda>t. if t \<in> set (s # ss) then L t @ G t else G t)"
    using d(2) by (auto simp: fun_eq_iff)
  from inv' have "pool_inv cfg st' (\<lambda>t. if t \<in> set (s # ss) then [] else L t)
                    (\<lambda>t. if t \<in> set (s # ss) then L t @ G t else G t)"
    unfolding e1 e2 .
  with f r fr1 fr' show ?case by auto
qed

lemma flushPool_inv:
  assumes "\<not> nts cfg" "eTableSize cfg < 65536" and inv: "pool_inv cfg st L G"
    and fit: "countsFit cfg L G"
  shows "\<exists>st'. flushPool cfg st = Some st' \<and>
     pool_inv cfg st' (\<lambda>t. if 1 \<le> t \<and> t < eTableSize cfg then [] else L t)
                      (\<lambda>t. if 1 \<le> t \<and> t < eTableSize cfg then L t @ G t else G t) \<and>
     s_blocks st' = s_blocks st \<and> s_nettoAlloc st' = s_nettoAlloc st"
proof -
  have "distinct [1..<eTableSize cfg]"
    "\<forall>s\<in>set [1..<eTableSize cfg]. s < eTableSize cfg \<and> length (L s) + length (G s) < 2 ^ 31"
    using fit by (simp_all add: countsFit_def)
  from flushFrom_inv[OF this inv] assms(1,2) show ?thesis
    by (auto simp: flushPool_def)
qed

lemma pool_inv_flushed:
  assumes "pool_inv cfg st L G"
    and "pool_inv cfg st' L' (\<lambda>t. if 1 \<le> t \<and> t < eTableSize cfg then L t @ G t else G t)"
    and fit: "bytesFit cfg L G" and sz: "eTableSize cfg \<le> 65536"
  shows "unguardedMemGlobalFreelist cfg st'
         = unguardedMemGlobalFreelist cfg st + threadBytes cfg L"
proof -
  let ?G' = "\<lambda>t. if 1 \<le> t \<and> t < eTableSize cfg then L t @ G t else G t"
  have fitG: "\<forall>s<eTableSize cfg. length (G s) * s < 2 ^ 31"
  proof (intro allI impI)
    fix s assume "s < eTableSize cfg"
    with fit have a: "(length (L s) + length (G s)) * s < 2 ^ 31" by (simp add: bytesFit_def)
    have "length (G s) * s \<le> (length (L s) + length (G s)) * s" by (simp add: add_mult_distrib)
    from this a show "length (G s) * s < 2 ^ 31" by (rule le_less_trans)
  qed
  have fitG': "\<forall>s<eTableSize cfg. length (?G' s) * s < 2 ^ 31"
    using fit fitG by (auto simp: bytesFit_def)
  have "map (\<lambda>sz. length (?G' sz) * sz) [1..<eTableSize cfg]
        = map (\<lambda>sz. length (L sz @ G sz) * sz) [1..<eTableSize cfg]"
    by (intro map_cong) auto
  then have "(\<Sum>sz\<leftarrow>[1..<eTableSize cfg]. length (?G' sz) * sz)
             = (\<Sum>sz\<leftarrow>[1..<eTableSize cfg]. length (L sz @ G sz) * sz)"
    by (rule arg_cong)
  then show ?thesis
    using unguarded_count[OF pool_inv_count_inv[OF assms(1)] fitG sz]
      unguarded_count[OF pool_inv_count_inv[OF assms(2)] fitG' sz]
    by (simp only: sum_bytes_append threadBytes_def)
qed

section \<open>Teardown after one matched allocation\<close>

lemma releaseBlocks_single:
  "m (blockLink cfg b) = None \<Longrightarrow> releaseBlocks cfg m (Some b) [] = Some [b]"
  by (subst releaseBlocks.simps, simp, subst releaseBlocks.simps, simp)

lemma cleanup_release_unchanged:
  "\<not> debug cfg \<Longrightarrow> cleanup cfg st = Some (Inr (st', freed)) \<Longrightarrow> st' = st"
  by (auto simp: cleanup_def split: option.splits)

lemma slicedState_eq:
  assumes "slicesPerBlock cfg (max s (eMinBytes cfg mod 65536)) = (n, w)"
  shows "slicedState cfg m s blk =
           \<lparr>mem = makeSlices (m(blockLink cfg blk := None)) blk w n,
            s_tp = (\<lambda>_. None)(s := Some blk),
            s_pool = (\<lambda>_. \<lparr>m_gp = None, m_size = 0\<rparr>),
            s_blocks = Some blk,
            s_nettoAlloc = (if debug cfg then w * n else 0)\<rparr>"
  by (simp add: slicedState_def assms)

lemma roundtrip_fresh:
  assumes "\<not> nts cfg" "s < eTableSize cfg" "eTableSize cfg \<le> 65536"
    and spb: "slicesPerBlock cfg (max s (eMinBytes cfg mod 65536)) = (n, w)" and n: "1 \<le> n"
    and fit: "w * n < 2 ^ 31"
  shows "roundtrip cfg (init_state m) s blk = Inr (slicedState cfg m s blk)"
proof -
  let ?st = "init_state m"
  let ?M = "makeSlices (m(blockLink cfg blk := None)) blk w n"
  have e: "\<not> int n \<le> m_size (s_pool ?st s)" using n by (simp add: init_state_def)
  have lt: "w * n < 2 ^ 64" using fit by (rule less_trans) simp
  have pr: "int w * int n = int (w * n)" by simp
  have cnt: "addSize 0 (toSize (wrapInt (int w * int n))) = w * n"
    by (simp only: pr wrapInt_nat[OF fit] toSize_nat[OF lt] addSize_def add_0 mod_less[OF lt])
  from slicesPerBlock_facts(1)[OF spb n] makeSlices_first[of "m(blockLink cfg blk := None)" blk w n]
  have first: "?M blk = Some (blk + w)" by simp
  have "allocate cfg ?st s blk = fillPool cfg ?st s s blk"
    using assms(2,3) by (simp add: allocate_def init_state_def)
  with fillPool_block[OF assms(1,2) spb e, of s blk]
  have "allocate cfg ?st s blk =
          Inr (blk, (carve cfg ?st w n)\<lparr>mem := ?M, s_tp := (s_tp ?st)(s := ?M blk),
                                         s_blocks := Some blk\<rparr>)"
    by (simp add: init_state_def)
  moreover have "?M(blk := ?M blk) = ?M" by (rule fun_upd_triv)
  ultimately show ?thesis using assms(2) cnt
    by (simp add: roundtrip_def deallocate_def slicedState_def spb carve_def init_state_def)
qed

lemma cleanup_slicedState:
  assumes "debug cfg" "0 < s" "s < eTableSize cfg"
    and spb: "slicesPerBlock cfg (max s (eMinBytes cfg mod 65536)) = (n, w)" and n: "2 \<le> n"
    and fit: "n * s < 2 ^ 64" "w * n * ptrSize cfg < 2 ^ 64"
  shows "s \<noteq> w * ptrSize cfg \<Longrightarrow> cleanup cfg (slicedState cfg m s blk) = Some (Inl AssertFailed)"
    and "s = w * ptrSize cfg \<Longrightarrow>
         cleanup cfg (slicedState cfg m s blk) =
           Some (Inr (clearHeads cfg (slicedState cfg m s blk), [blk]))"
    and "memoryInThreadFreeList cfg (slicedState cfg m s blk) =
           Some (clearHeads cfg (slicedState cfg m s blk), n * s)"
proof -
  let ?st = "slicedState cfg m s blk"
  let ?M = "makeSlices (m(blockLink cfg blk := None)) blk w n"
  let ?L = "(\<lambda>_. [])(s := sliceAddrs blk w n)"
  from n have n1: "1 \<le> n" by simp
  note f = slicesPerBlock_facts[OF spb n1]
  have st: "?st = \<lparr>mem = ?M, s_tp = (\<lambda>_. None)(s := Some blk),
                   s_pool = (\<lambda>_. \<lparr>m_gp = None, m_size = 0\<rparr>), s_blocks = Some blk,
                   s_nettoAlloc = w * n\<rparr>"
    using assms(1) by (simp add: slicedState_def spb)
  have ch: "chain ?M (Some blk) (sliceAddrs blk w n)" by (rule makeSlices_chain[OF n f(1)])
  then have chs: "\<forall>t<eTableSize cfg. chain (mem ?st) (s_tp ?st t) (?L t)" by (simp add: st)
  have "threadBytes cfg ?L = length (sliceAddrs blk w n) * s"
    by (rule threadBytes_single[OF assms(2,3)])
  moreover have "length (sliceAddrs blk w n) = n" by (simp add: sliceAddrs_def)
  ultimately have tb: "threadBytes cfg ?L = n * s" by (simp only:)
  with fit(1) have "threadBytes cfg ?L < 2 ^ 64" by simp
  from memoryInThreadFreeList_chains[OF chs this] tb
  show mt: "memoryInThreadFreeList cfg ?st = Some (clearHeads cfg ?st, n * s)"
    by (simp only:)
  have ug: "unguardedMemGlobalFreelist cfg ?st = 0"
    by (rule unguarded_zero) (simp add: st)
  have na: "s_nettoAlloc (clearHeads cfg ?st) = w * n" by (simp add: st clearHeads_def)
  have link: "blk + n * w \<le> blockLink cfg blk" using f(3) by (simp add: blockLink_def)
  have "blockLink cfg blk \<notin> set (sliceAddrs blk w (max 2 n))"
    using sliceAddrs_range[OF _ f(1), of "blockLink cfg blk" blk n] link n
    by (auto simp: max_def)
  then have "?M (blockLink cfg blk) = None" by (simp add: makeSlices_frame)
  then have rb: "releaseBlocks cfg (mem (clearHeads cfg ?st)) (s_blocks (clearHeads cfg ?st)) []
                 = Some [blk]"
    by (simp add: st clearHeads_def releaseBlocks_single)
  have npos: "0 < n" using n by simp
  show "cleanup cfg ?st = Some (Inl AssertFailed)" if "s \<noteq> w * ptrSize cfg"
  proof -
    from that npos have "n * s \<noteq> w * n * ptrSize cfg" by (auto simp: mult.commute)
    then have "addSize 0 (n * s) \<noteq> mulSize (w * n) (ptrSize cfg)"
      using fit by (simp add: addSize_def mulSize_def)
    then show ?thesis using assms(1) by (simp add: cleanup_def mt ug na)
  qed
  show "cleanup cfg ?st = Some (Inr (clearHeads cfg ?st, [blk]))" if "s = w * ptrSize cfg"
  proof -
    from that have "n * s = w * n * ptrSize cfg" by (simp add: mult.commute mult.left_commute)
    then have "addSize 0 (n * s) = mulSize (w * n) (ptrSize cfg)"
      using fit by (simp add: addSize_def mulSize_def)
    then show ?thesis using assms(1) by (simp add: cleanup_def mt ug na rb)
  qed
qed

section \<open>Defragmenting\<close>

lemma collect_chain:
  "chain m p xs \<Longrightarrow> i + length xs \<le> length a \<Longrightarrow>
   collect m p a i = Some (Inr (take i a @ map Some xs @ drop (i + length xs) a, i + length xs))"
proof (induction xs arbitrary: p a i)
  case Nil
  then show ?case by (subst collect.simps) simp
next
  case (Cons x xs)
  from Cons.prems have p: "p = Some x" and tl: "chain m (m x) xs" and i: "i < length a"
    and len: "Suc i + length xs \<le> length (a[i := Some x])" by simp_all
  have "collect m p a i = collect m (m x) (a[i := Some x]) (i + 1)"
    using p i by (subst collect.simps) simp
  also have "\<dots> = Some (Inr (take (Suc i) (a[i := Some x]) @ map Some xs @
                               drop (Suc i + length xs) (a[i := Some x]),
                             Suc i + length xs))"
    using Cons.IH[OF tl len] by simp
  also have "take (Suc i) (a[i := Some x]) = take i a @ [Some x]"
    using i by (simp add: take_Suc_conv_app_nth)
  also have "drop (Suc i + length xs) (a[i := Some x]) = drop (Suc i + length xs) a"
    by simp
  finally show ?case by simp
qed

lemma relink_frame: "a \<notin> set ys \<Longrightarrow> relink m ys a = m a"
  by (induction m ys rule: relink.induct) (auto simp: fun_upd_def)

lemma relink_chain: "distinct ys \<Longrightarrow> ys \<noteq> [] \<Longrightarrow> chain (relink m ys) (Some (hd ys)) ys"
proof (induction m ys rule: relink.induct)
  case (1 m)
  then show ?case by simp
next
  case (2 m x)
  then show ?case by simp
next
  case (3 m x y ys)
  let ?m' = "m(x := Some y)"
  from "3.prems" have d: "distinct (y # ys)" and xn: "x \<notin> set (y # ys)" by auto
  have ih: "chain (relink ?m' (y # ys)) (Some y) (y # ys)"
    using "3.IH" d by (simp add: fun_upd_def)
  have "relink ?m' (y # ys) x = ?m' x" using xn by (rule relink_frame)
  then have "relink ?m' (y # ys) x = Some y" by simp
  with ih have "chain (relink ?m' (y # ys)) (Some x) (x # y # ys)" by simp
  then show ?case by (simp add: fun_upd_def)
qed

lemma sort_short: "length xs \<le> 1 \<Longrightarrow> sort xs = (xs::nat list)"
  by (cases xs) (auto simp: sorted_sort_id)

lemma strict_sorted_sort: "distinct xs \<Longrightarrow> sorted_wrt (<) (sort (xs::nat list))"
  by (simp add: strict_sorted_iff)

lemma defragClass_inv:
  assumes inv: "pool_inv cfg st L G" and s: "s < eTableSize cfg"
    and len: "length (G s) \<le> length a"
  shows "\<exists>st' a'. defragClass cfg st a s = Some (Inr (st', a')) \<and> length a' = length a \<and>
           pool_inv cfg st' L (G(s := sort (G s))) \<and>
           s_tp st' = s_tp st \<and> s_blocks st' = s_blocks st \<and>
           s_nettoAlloc st' = s_nettoAlloc st \<and>
           (\<forall>t. t \<noteq> s \<longrightarrow> s_pool st' t = s_pool st t) \<and>
           (length (G s) \<le> 1 \<longrightarrow> st' = st)"
proof (cases "1 < length (G s)")
  case False
  then have "sort (G s) = G s" by (simp add: sort_short)
  then have "G(s := sort (G s)) = G" by simp
  moreover have "defragClass cfg st a s = Some (Inr (st, a))"
    using False pool_inv_count[OF inv s] by (simp add: defragClass_def Let_def)
  ultimately show ?thesis using inv by simp
next
  case True
  define g where "g = G s"
  define sg where "sg = sort g"
  define a2 where "a2 = map Some sg @ drop (length g) a"
  define st' where "st' = st\<lparr>s_pool := (s_pool st)(s := (s_pool st s)\<lparr>m_gp := Some (hd sg)\<rparr>),
                             mem := relink (mem st) sg\<rparr>"
  note cG = pool_inv_G[OF inv s] and cnt = pool_inv_count[OF inv s]
  have n: "m_size (s_pool st s) = int (length g)" "1 < m_size (s_pool st s)"
    using cnt True by (simp_all add: g_def)
  have col: "collect (mem st) (m_gp (s_pool st s)) a 0
             = Some (Inr (map Some g @ drop (length g) a, length g))"
    using collect_chain[OF cG, of 0 a] len by (simp add: g_def)
  have tk: "take (length g) (map Some g @ drop (length g) a) = map Some g" by simp
  have "length sg = length (G s)" by (simp add: sg_def g_def)
  with True have sgne: "sg \<noteq> []" by auto
  have a20: "a2 ! 0 = Some (hd sg)"
    using sgne by (cases sg) (simp_all add: a2_def)
  have res: "defragClass cfg st a s = Some (Inr (st', a2))"
    using n(2) by (simp add: defragClass_def Let_def col n(1) tk comp_def
        sg_def[symmetric] a2_def[symmetric] a20 st'_def)
  have la: "length a2 = length a" using len by (simp add: a2_def sg_def g_def)
  from cG have dg: "distinct g" unfolding g_def by (rule chain_distinct)
  then have dsg: "distinct sg" by (simp add: sg_def)
  have ssg: "set sg = set (G s)" by (simp add: sg_def g_def)
  have ch: "chain (relink (mem st) sg) (Some (hd sg)) sg" by (rule relink_chain[OF dsg sgne])
  have fr: "relink (mem st) sg x = mem st x" if "x \<notin> set (G s)" for x
    using that ssg by (simp add: relink_frame)
  have "pool_inv cfg st' (L(s := L s)) (G(s := sg))"
  proof (rule pool_inv_update[OF inv s])
    show "mem st' x = mem st x" if "t < eTableSize cfg" "t \<noteq> s" "x \<in> set (L t) \<union> set (G t)" for t x
      using pool_inv_other[OF inv s that(1,2)] that(3) by (auto simp: st'_def intro!: fr)
    have "chain (mem st') (s_tp st s) (L s) = chain (mem st) (s_tp st s) (L s)"
      using pool_inv_same[OF inv s] by (intro chain_cong_mem) (auto simp: st'_def intro!: fr)
    then show "chain (mem st') (s_tp st' s) (L s)"
      using pool_inv_L[OF inv s] by (simp add: st'_def)
    show "chain (mem st') (m_gp (s_pool st' s)) sg" using ch by (simp add: st'_def)
    show "m_size (s_pool st' s) = int (length sg)" using n(1) by (simp add: st'_def sg_def)
    show "set (L s) \<inter> set sg = {}" using pool_inv_same[OF inv s] ssg by simp
    show "(set (L s) \<union> set sg) \<inter> (set (L t) \<union> set (G t)) = {}"
      if "t < eTableSize cfg" "t \<noteq> s" for t
      using pool_inv_other[OF inv s that] ssg by simp
  qed (simp add: st'_def)
  then have "pool_inv cfg st' L (G(s := sort (G s)))" by (simp add: sg_def g_def)
  with res la True show ?thesis by (simp add: st'_def)
qed

lemma defragFrom_inv:
  "distinct ss \<Longrightarrow> \<forall>s\<in>set ss. s < eTableSize cfg \<Longrightarrow> pool_inv cfg st L G \<Longrightarrow>
   \<forall>s\<in>set ss. length (G s) \<le> length a \<Longrightarrow>
   \<exists>st' a'. defragFrom cfg st a ss = Some (Inr (st', a')) \<and>
     pool_inv cfg st' L (\<lambda>t. if t \<in> set ss then sort (G t) else G t) \<and>
     s_tp st' = s_tp st \<and> s_blocks st' = s_blocks st \<and> s_nettoAlloc st' = s_nettoAlloc st \<and>
     (\<forall>t. t \<notin> set ss \<longrightarrow> s_pool st' t = s_pool st t)"
proof (induction ss arbitrary: st G a)
  case Nil
  then show ?case by simp
next
  case (Cons s ss)
  from Cons.prems have s: "s < eTableSize cfg" and d: "distinct ss" "s \<notin> set ss"
    and ss: "\<forall>t\<in>set ss. t < eTableSize cfg" and ls: "length (G s) \<le> length a" by auto
  from defragClass_inv[OF Cons.prems(3) s ls] obtain st1 a1 where
    f: "defragClass cfg st a s = Some (Inr (st1, a1))" and la: "length a1 = length a"
    and inv1: "pool_inv cfg st1 L (G(s := sort (G s)))"
    and fr1: "s_tp st1 = s_tp st" "s_blocks st1 = s_blocks st" "s_nettoAlloc st1 = s_nettoAlloc st"
      "\<forall>t. t \<noteq> s \<longrightarrow> s_pool st1 t = s_pool st t"
    by blast
  have l1: "\<forall>t\<in>set ss. length ((G(s := sort (G s))) t) \<le> length a1"
    using Cons.prems(4) la by auto
  from Cons.IH[OF d(1) ss inv1 l1] obtain st' a' where
    r: "defragFrom cfg st1 a1 ss = Some (Inr (st', a'))"
    and inv': "pool_inv cfg st' L
                 (\<lambda>t. if t \<in> set ss then sort ((G(s := sort (G s))) t) else (G(s := sort (G s))) t)"
    and fr': "s_tp st' = s_tp st1" "s_blocks st' = s_blocks st1" "s_nettoAlloc st' = s_nettoAlloc st1"
      "\<forall>t. t \<notin> set ss \<longrightarrow> s_pool st' t = s_pool st1 t"
    by blast
  have e: "(\<lambda>t. if t \<in> set ss then sort ((G(s := sort (G s))) t) else (G(s := sort (G s))) t)
           = (\<lambda>t. if t \<in> set (s # ss) then sort (G t) else G t)"
    using d(2) by (auto simp: fun_eq_iff)
  from inv' have "pool_inv cfg st' L (\<lambda>t. if t \<in> set (s # ss) then sort (G t) else G t)"
    unfolding e .
  with f r fr1 fr' show ?case by auto
qed

lemma fold_max_lower: "m0 \<le> fold (\<lambda>sz m. max m (f sz)) ss (m0::int)"
proof (induction ss arbitrary: m0)
  case (Cons s ss)
  have "m0 \<le> max m0 (f s)" by simp
  also have "\<dots> \<le> fold (\<lambda>sz m. max m (f sz)) ss (max m0 (f s))" by (rule Cons.IH)
  finally show ?case by simp
qed simp

lemma fold_max_upper: "s \<in> set ss \<Longrightarrow> f s \<le> fold (\<lambda>sz m. max m (f sz)) ss (m0::int)"
proof (induction ss arbitrary: m0)
  case (Cons t ss)
  show ?case
  proof (cases "s = t")
    case True
    have "f t \<le> max m0 (f t)" by simp
    also have "\<dots> \<le> fold (\<lambda>sz m. max m (f sz)) ss (max m0 (f t))" by (rule fold_max_lower)
    finally show ?thesis using True by simp
  next
    case False
    with Cons.prems have "s \<in> set ss" by simp
    from Cons.IH[OF this] show ?thesis by simp
  qed
qed simp

lemma maxCount_bound:
  assumes "pool_inv cfg st L G" "1 \<le> s" "s < eTableSize cfg"
  shows "int (length (G s)) \<le> maxCount cfg st"
proof -
  have "s \<in> set [1..<eTableSize cfg]" using assms(2,3) by simp
  from fold_max_upper[OF this, of "\<lambda>sz. m_size (s_pool st sz)" 0] pool_inv_count[OF assms(1,3)]
  show ?thesis by (simp add: maxCount_def)
qed

lemma defrag_inv:
  assumes inv: "pool_inv cfg st L G"
  shows "\<exists>st'. defrag cfg st = Some (Inr st') \<and>
     pool_inv cfg st' L (\<lambda>t. if 1 \<le> t \<and> t < eTableSize cfg then sort (G t) else G t) \<and>
     s_tp st' = s_tp st \<and> s_blocks st' = s_blocks st \<and> s_nettoAlloc st' = s_nettoAlloc st \<and>
     s_pool st' 0 = s_pool st 0"
proof (cases "1 < maxCount cfg st")
  case False
  have "sort (G t) = G t" if "1 \<le> t \<and> t < eTableSize cfg" for t
    using maxCount_bound[OF inv, of t] that False by (intro sort_short) simp
  then have "(\<lambda>t. if 1 \<le> t \<and> t < eTableSize cfg then sort (G t) else G t) = G"
    by (auto simp: fun_eq_iff)
  moreover have "defrag cfg st = Some (Inr st)" using False by (simp add: defrag_def)
  ultimately show ?thesis using inv by simp
next
  case True
  let ?a = "replicate (nat (maxCount cfg st)) (None :: addr option)"
  have "length (G s) \<le> nat (maxCount cfg st)" if "1 \<le> s" "s < eTableSize cfg" for s
    using maxCount_bound[OF inv that] by linarith
  then have l: "\<forall>s\<in>set [1..<eTableSize cfg]. length (G s) \<le> length ?a"
    by simp
  have "distinct [1..<eTableSize cfg]" "\<forall>s\<in>set [1..<eTableSize cfg]. s < eTableSize cfg"
    by simp_all
  from defragFrom_inv[OF this inv l] True show ?thesis
    by (auto simp: defrag_def)
qed

section \<open>Facts about the concrete configurations\<close>

lemma all_less_4: "(\<forall>s<(4::nat). P s) \<longleftrightarrow> P 0 \<and> P 1 \<and> P 2 \<and> P 3"
proof -
  have "(4::nat) = Suc (Suc (Suc (Suc 0)))" by simp
  then show ?thesis by (simp only: All_less_Suc) (auto simp: numeral_2_eq_2 numeral_3_eq_3)
qed

lemma spb_small: "s < 4 \<Longrightarrow> slicesPerBlock cfg_small (max s (eMinBytes cfg_small mod 65536)) = (4, 1)"
  by (simp add: slicesPerBlock_def cfg_small_def Let_def max_def)

lemma spb_small_1: "slicesPerBlock cfg_small (max 1 (eMinBytes cfg_small mod 65536)) = (4, 1)"
  by (simp add: spb_small)

lemma spb_large_1: "slicesPerBlock cfg_large (max 1 (eMinBytes cfg_large mod 65536)) = (1023, 1)"
  by (simp add: slicesPerBlock_def cfg_large_def Let_def)

lemma spb_large_8: "slicesPerBlock cfg_large (max 8 (eMinBytes cfg_large mod 65536)) = (1023, 1)"
  by (simp add: slicesPerBlock_def cfg_large_def Let_def)

lemma pool_inv_small_scattered: "pool_inv cfg_small st_scattered L_empty G_scattered"
  by (simp add: pool_inv_def cfg_small_def all_less_4 st_scattered_def L_empty_def G_scattered_def)

lemma pool_inv_small_busy: "pool_inv cfg_small st_busy L_busy G_busy"
  by (simp add: pool_inv_def cfg_small_def all_less_4 st_busy_def L_busy_def G_busy_def)

lemma fits_small_busy: "countsFit cfg_small L_busy G_busy" "bytesFit cfg_small L_busy G_busy"
  by (simp_all add: countsFit_def bytesFit_def cfg_small_def all_less_4 L_busy_def G_busy_def)

lemma upt_1_4: "[1..<4] = [1, 2, 3::nat]" "[Suc 0..<4] = [Suc 0, 2, 3]"
  by (simp_all add: upt_rec)

lemma mem_big_10: "makeSlices mem0 1000 1 n 10 = None" "makeSlices mem0 1000 (Suc 0) n 10 = None"
proof -
  have "10 \<notin> set (sliceAddrs 1000 1 (max 2 n))"
    using sliceAddrs_lower[of 10 1000 1 "max 2 n"] by auto
  then have "makeSlices mem0 1000 1 n 10 = mem0 10" by (rule makeSlices_frame)
  then show "makeSlices mem0 1000 1 n 10 = None" by (simp only: mem0_def)
  then show "makeSlices mem0 1000 (Suc 0) n 10 = None" by simp
qed

lemma pool_inv_big:
  assumes "2 \<le> n"
  shows "pool_inv cfg_small (st_big n) L_one (G_big n)"
proof -
  have ch: "chain (makeSlices mem0 1000 1 n) (Some 1000) (sliceAddrs 1000 1 n)"
    using assms by (intro makeSlices_chain) simp_all
  have dj: "10 \<notin> set (sliceAddrs 1000 1 n)"
    using sliceAddrs_lower[of 10 1000 1 n] by auto
  show ?thesis
    using ch dj
    by (simp add: pool_inv_def cfg_small_def all_less_4 st_big_def L_one_def G_big_def
        mem_big_10 length_sliceAddrs)
qed

lemma flushPool_big:
  "flushPool cfg_small (st_big n) = Some (st_big_flushed n (wrapInt (int n + 1)))"
proof -
  have ft: "findTail (makeSlices mem0 1000 (Suc 0) n) 10 1 = Some (10, 1)"
    by (subst findTail.simps) (simp add: mem_big_10)
  have f1: "flushClass (st_big n) (Suc 0) = Some (st_big n)"
    "flushClass (st_big n) 2 = Some (st_big n)"
    by (simp_all add: flushClass_def st_big_def)
  have f3: "flushClass (st_big n) 3 = Some (st_big_flushed n (wrapInt (int n + 1)))"
    by (simp add: flushClass_def st_big_def st_big_flushed_def ft Let_def add.commute)
  show ?thesis
    by (simp add: flushPool_def cfg_small_def upt_1_4 f1 f3)
qed

lemma chain_big_flushed:
  assumes "2 \<le> n"
  shows "chain (mem (st_big_flushed n c)) (m_gp (s_pool (st_big_flushed n c) 3))
           (10 # sliceAddrs 1000 1 n)"
proof -
  have ch: "chain (makeSlices mem0 1000 1 n) (Some 1000) (sliceAddrs 1000 1 n)"
    using assms by (intro makeSlices_chain) simp_all
  have dj: "10 \<notin> set (sliceAddrs 1000 1 n)"
    using sliceAddrs_lower[of 10 1000 1 n] by auto
  with ch show ?thesis by (simp add: st_big_flushed_def chain_upd_other)
qed

lemma global_bytes_big:
  "memoryInGlobalFreeList cfg_small (st_big n) = toSize (wrapInt (int n * 3))"
  "memoryInGlobalFreeList cfg_small (st_big_flushed n c) = toSize (wrapInt (c * 3))"
proof -
  have z: "toSize (wrapInt 0) = 0" by (simp add: toSize_def wrapInt_def)
  show "memoryInGlobalFreeList cfg_small (st_big n) = toSize (wrapInt (int n * 3))"
    using toSize_less[of "wrapInt (int n * 3)"]
    by (simp add: memoryInGlobalFreeList_def unguardedMemGlobalFreelist_def cfg_small_def
        upt_1_4 st_big_def addSize_def z)
  show "memoryInGlobalFreeList cfg_small (st_big_flushed n c) = toSize (wrapInt (c * 3))"
    using toSize_less[of "wrapInt (c * 3)"]
    by (simp add: memoryInGlobalFreeList_def unguardedMemGlobalFreelist_def cfg_small_def
        upt_1_4 st_big_flushed_def addSize_def z)
qed

section \<open>The claims\<close>


text \<open>
  C2. In a debug build, after allocations that are all matched by deallocations, the bytes
  in the global lists plus the bytes in the thread's lists should equal the words carved
  from blocks times the pointer size, so that the assertion of \<^verbatim>\<open>cleanup\<close> holds. The
  code counts a free element of class \<open>s\<close> as \<open>s\<close> bytes but a carved slice as whole
  words: on the fresh allocator, one \<^verbatim>\<open>allocate(1)\<close> and the matching
  \<^verbatim>\<open>deallocate\<close> leave 1023 free elements of one byte against 1023 carved words of
  eight bytes, and the assertion fails.
\<close>

theorem cleanup_leak_check_fires:
  "roundtrip cfg_large st_fresh 1 100 = Inr (slicedState cfg_large mem_junk 1 100) \<and>
   unguardedMemGlobalFreelist cfg_large (slicedState cfg_large mem_junk 1 100) = 0 \<and>
   memoryInThreadFreeList cfg_large (slicedState cfg_large mem_junk 1 100) =
     Some (clearHeads cfg_large (slicedState cfg_large mem_junk 1 100), 1023) \<and>
   s_nettoAlloc (slicedState cfg_large mem_junk 1 100) * ptrSize cfg_large = 8184 \<and>
   cleanup cfg_large (slicedState cfg_large mem_junk 1 100) = Some (Inl AssertFailed)"
proof -
  have c: "\<not> nts cfg_large" "1 < eTableSize cfg_large" "eTableSize cfg_large \<le> 65536"
    "debug cfg_large" "(0::nat) < 1" "(1::nat) \<le> 1023" "(2::nat) \<le> 1023"
    "1 \<noteq> 1 * ptrSize cfg_large"
    by (simp_all add: cfg_large_def)
  have b: "(1::nat) * 1023 < 2 ^ 31" "(1023::nat) * 1 < 2 ^ 64"
    "1 * 1023 * ptrSize cfg_large < 2 ^ 64"
    by (simp_all add: cfg_large_def)
  have r: "roundtrip cfg_large st_fresh 1 100 = Inr (slicedState cfg_large mem_junk 1 100)"
    unfolding st_fresh_def by (rule roundtrip_fresh[OF c(1,2,3) spb_large_1 c(6) b(1)])
  have u: "unguardedMemGlobalFreelist cfg_large (slicedState cfg_large mem_junk 1 100) = 0"
    unfolding slicedState_eq[OF spb_large_1] by (rule unguarded_zero) simp
  have n: "s_nettoAlloc (slicedState cfg_large mem_junk 1 100) * ptrSize cfg_large = 8184"
    unfolding slicedState_eq[OF spb_large_1] by (simp add: cfg_large_def)
  from cleanup_slicedState(1)[OF c(4,5,2) spb_large_1 c(7) b(2,3) c(8), of mem_junk 100]
    cleanup_slicedState(3)[OF c(4,5,2) spb_large_1 c(7) b(2,3), of mem_junk 100] r u n
  show ?thesis by simp
qed

text \<open>
  C3. \<^verbatim>\<open>memoryInThreadFreeList\<close> should be read-only: return the sum, over the size
  classes, of the length of the thread's list times the size, and leave the thread's
  table unchanged. The code returns that sum, but it walks each list through a reference
  to the table entry, so every head from class 1 on is \<^verbatim>\<open>nullptr\<close> afterwards: the lists
  10, 20, 30 of class 1 and 40 of class 2 are counted as five bytes and then lost.
\<close>

theorem memoryInThreadFreeList_clears_heads:
  "memoryInThreadFreeList cfg_small st_thread = Some (clearHeads cfg_small st_thread, 5) \<and>
   s_tp st_thread 1 = Some 10 \<and> s_tp (clearHeads cfg_small st_thread) 1 = None \<and>
   s_tp st_thread 2 = Some 40 \<and> s_tp (clearHeads cfg_small st_thread) 2 = None"
proof -
  have "\<forall>s<eTableSize cfg_small. chain (mem st_thread) (s_tp st_thread s) (L_thread s)"
    by (simp add: cfg_small_def all_less_4 st_thread_def L_thread_def)
  moreover have tb: "threadBytes cfg_small L_thread = 5" by code_simp
  ultimately have "memoryInThreadFreeList cfg_small st_thread =
               Some (clearHeads cfg_small st_thread, threadBytes cfg_small L_thread)"
    by (intro memoryInThreadFreeList_chains) simp_all
  with tb show ?thesis
    by (simp add: st_thread_def clearHeads_def cfg_small_def)
qed

text \<open>
  C4 (amended). In the multi-threaded build, for every allocator state that satisfies the
  invariant of the data model and in which the elements of each size class, local and
  global together, number at most \<open>2\<^sup>3\<^sup>1 - 1\<close>, \<^verbatim>\<open>flushPool\<close> returns and afterwards,
  for every size class \<open>s\<close> from 1 on, the thread's head is empty, the global list is the
  former local list followed by the former global list, and the global count has grown by
  the length of the local list. When moreover the bytes of the elements of each size
  class number at most \<open>2\<^sup>3\<^sup>1 - 1\<close>, the value of \<^verbatim>\<open>memoryInGlobalFreeList\<close> has grown
  by exactly the bytes that \<^verbatim>\<open>memoryInThreadFreeList\<close> counted in the local lists
  beforehand.
\<close>

theorem flushPool_splices:
  assumes "\<not> nts cfg" "eTableSize cfg < 65536" and inv: "pool_inv cfg st L G"
    and fit: "countsFit cfg L G"
  shows "\<exists>st'. flushPool cfg st = Some st' \<and>
     (\<forall>s. 1 \<le> s \<and> s < eTableSize cfg \<longrightarrow>
        s_tp st' s = None \<and>
        chain (mem st') (m_gp (s_pool st' s)) (L s @ G s) \<and>
        m_size (s_pool st' s) = m_size (s_pool st s) + int (length (L s))) \<and>
     (bytesFit cfg L G \<longrightarrow>
        memoryInThreadFreeList cfg st = Some (clearHeads cfg st, threadBytes cfg L) \<and>
        memoryInGlobalFreeList cfg st' = memoryInGlobalFreeList cfg st + threadBytes cfg L)"
proof -
  let ?L' = "\<lambda>t. if 1 \<le> t \<and> t < eTableSize cfg then [] else L t"
  let ?G' = "\<lambda>t. if 1 \<le> t \<and> t < eTableSize cfg then L t @ G t else G t"
  from flushPool_inv[OF assms] obtain st' where
    f: "flushPool cfg st = Some st'" and inv': "pool_inv cfg st' ?L' ?G'" by blast
  have cls: "s_tp st' s = None \<and> chain (mem st') (m_gp (s_pool st' s)) (L s @ G s) \<and>
             m_size (s_pool st' s) = m_size (s_pool st s) + int (length (L s))"
    if "1 \<le> s \<and> s < eTableSize cfg" for s
    using that pool_inv_L[OF inv', of s] pool_inv_G[OF inv', of s] pool_inv_count[OF inv', of s]
      pool_inv_count[OF inv, of s] by simp
  have sz: "eTableSize cfg \<le> 65536" using assms(2) by simp
  have byt: "memoryInThreadFreeList cfg st = Some (clearHeads cfg st, threadBytes cfg L) \<and>
            memoryInGlobalFreeList cfg st' = memoryInGlobalFreeList cfg st + threadBytes cfg L"
    if b: "bytesFit cfg L G"
  proof
    show "memoryInThreadFreeList cfg st = Some (clearHeads cfg st, threadBytes cfg L)"
      using inv threadBytes_fit[OF b sz]
      by (intro memoryInThreadFreeList_chains) (simp_all add: pool_inv_def)
    show "memoryInGlobalFreeList cfg st' = memoryInGlobalFreeList cfg st + threadBytes cfg L"
      unfolding memoryInGlobalFreeList_def by (rule pool_inv_flushed[OF inv inv' b sz])
  qed
  from f cls byt show ?thesis by blast
qed

text \<open>
  The thread of \<open>st_busy\<close> holds two elements of class 2, four bytes, and the global
  pool holds five elements of class 1 and one of class 2, seven bytes: after the flush the
  global list of class 2 is 60, 70, 80 and the global pool holds eleven bytes.
\<close>

theorem flushPool_splices_witness:
  "\<not> nts cfg_small \<and> eTableSize cfg_small < 65536 \<and>
   pool_inv cfg_small st_busy L_busy G_busy \<and>
   countsFit cfg_small L_busy G_busy \<and> bytesFit cfg_small L_busy G_busy \<and>
   (\<exists>st'. flushPool cfg_small st_busy = Some st' \<and>
      s_tp st' 1 = None \<and> s_tp st' 2 = None \<and>
      chain (mem st') (m_gp (s_pool st' 1)) [30, 10, 50, 20, 40] \<and>
      chain (mem st') (m_gp (s_pool st' 2)) [60, 70, 80] \<and>
      m_size (s_pool st' 1) = 5 \<and> m_size (s_pool st' 2) = 3 \<and>
      memoryInThreadFreeList cfg_small st_busy = Some (clearHeads cfg_small st_busy, 4) \<and>
      memoryInGlobalFreeList cfg_small st_busy = 7 \<and>
      memoryInGlobalFreeList cfg_small st' = 11)"
proof -
  have c: "\<not> nts cfg_small" "eTableSize cfg_small < 65536" by (simp_all add: cfg_small_def)
  have tb: "threadBytes cfg_small L_busy = 4" by code_simp
  have g0: "memoryInGlobalFreeList cfg_small st_busy = 7"
    by (simp add: memoryInGlobalFreeList_def unguardedMemGlobalFreelist_def cfg_small_def
        upt_1_4 st_busy_def addSize_def toSize_def wrapInt_def)
  have n: "(1::nat) \<le> 1 \<and> 1 < eTableSize cfg_small" "(1::nat) \<le> 2 \<and> 2 < eTableSize cfg_small"
    by (simp_all add: cfg_small_def)
  have v: "L_busy 1 @ G_busy 1 = [30, 10, 50, 20, 40]" "L_busy 2 @ G_busy 2 = [60, 70, 80]"
    "m_size (s_pool st_busy 1) + int (length (L_busy 1)) = 5"
    "m_size (s_pool st_busy 2) + int (length (L_busy 2)) = 3"
    by (simp_all add: L_busy_def G_busy_def st_busy_def)
  from flushPool_splices[OF c pool_inv_small_busy fits_small_busy(1)] obtain st' where
    f: "flushPool cfg_small st_busy = Some st'"
    and a: "\<forall>s. 1 \<le> s \<and> s < eTableSize cfg_small \<longrightarrow>
        s_tp st' s = None \<and>
        chain (mem st') (m_gp (s_pool st' s)) (L_busy s @ G_busy s) \<and>
        m_size (s_pool st' s) = m_size (s_pool st_busy s) + int (length (L_busy s))"
    and g: "bytesFit cfg_small L_busy G_busy \<longrightarrow>
       memoryInThreadFreeList cfg_small st_busy
         = Some (clearHeads cfg_small st_busy, threadBytes cfg_small L_busy) \<and>
       memoryInGlobalFreeList cfg_small st'
         = memoryInGlobalFreeList cfg_small st_busy + threadBytes cfg_small L_busy"
    by blast
  have a1: "s_tp st' 1 = None \<and> chain (mem st') (m_gp (s_pool st' 1)) [30, 10, 50, 20, 40] \<and>
            m_size (s_pool st' 1) = 5"
    using a[rule_format, OF n(1)] by (simp only: v)
  have a2: "s_tp st' 2 = None \<and> chain (mem st') (m_gp (s_pool st' 2)) [60, 70, 80] \<and>
            m_size (s_pool st' 2) = 3"
    using a[rule_format, OF n(2)] by (simp only: v)
  from g fits_small_busy(2)
  have "memoryInThreadFreeList cfg_small st_busy = Some (clearHeads cfg_small st_busy, 4)"
    "memoryInGlobalFreeList cfg_small st' = 11"
    by (simp_all only: g0 tb)
  with a1 a2 f c g0 pool_inv_small_busy fits_small_busy show ?thesis by blast
qed

text \<open>
  The claim without the two bounds fails. With 715827882 elements of class 3 in the global
  pool, 2147483646 bytes, and one more in the thread's list, the product of the new count
  and the size no longer fits \<^verbatim>\<open>int\<close>: \<^verbatim>\<open>memoryInGlobalFreeList\<close> goes from 2147483646
  to \<open>2\<^sup>6\<^sup>4 - 2147483647\<close>, not to 2147483649. With \<open>2\<^sup>3\<^sup>1 - 1\<close> elements in the global
  pool and one more in the thread's list, the count itself goes from 2147483647 to
  \<open>- 2\<^sup>3\<^sup>1\<close>.
\<close>

theorem flushPool_overflow_counterexample:
  "pool_inv cfg_small (st_big 715827882) L_one (G_big 715827882) \<and>
   flushPool cfg_small (st_big 715827882) = Some (st_big_flushed 715827882 715827883) \<and>
   threadBytes cfg_small L_one = 3 \<and>
   memoryInGlobalFreeList cfg_small (st_big 715827882) = 2147483646 \<and>
   memoryInGlobalFreeList cfg_small (st_big_flushed 715827882 715827883)
     = 18446744071562067969 \<and>
   pool_inv cfg_small (st_big 2147483647) L_one (G_big 2147483647) \<and>
   flushPool cfg_small (st_big 2147483647) = Some (st_big_flushed 2147483647 (- 2147483648)) \<and>
   length (L_one 3) = 1 \<and>
   m_size (s_pool (st_big 2147483647) 3) = 2147483647 \<and>
   m_size (s_pool (st_big_flushed 2147483647 (- 2147483648)) 3) = - 2147483648"
proof -
  have w: "wrapInt (int 715827882 + 1) = 715827883" "wrapInt (int 2147483647 + 1) = - 2147483648"
    by (simp_all add: wrapInt_def)
  have tb: "threadBytes cfg_small L_one = 3"
    by (simp add: threadBytes_def cfg_small_def upt_1_4 L_one_def)
  have b: "toSize (wrapInt (int 715827882 * 3)) = 2147483646"
    "toSize (wrapInt (715827883 * 3)) = 18446744071562067969"
    by (simp_all add: toSize_def wrapInt_def)
  have m: "length (L_one 3) = 1" "m_size (s_pool (st_big 2147483647) 3) = 2147483647"
    "m_size (s_pool (st_big_flushed 2147483647 (- 2147483648)) 3) = - 2147483648"
    by (simp_all add: L_one_def st_big_def st_big_flushed_def)
  have p: "pool_inv cfg_small (st_big 715827882) L_one (G_big 715827882)"
    "pool_inv cfg_small (st_big 2147483647) L_one (G_big 2147483647)"
    by (rule pool_inv_big, simp)+
  show ?thesis
    using flushPool_big[of 715827882] flushPool_big[of 2147483647]
      global_bytes_big(1)[of 715827882] global_bytes_big(2)[of 715827882 715827883]
    by (simp only: w b tb m p simp_thms)
qed

text \<open>
  C5. For every allocator state that satisfies the invariant of the data model,
  \<^verbatim>\<open>defrag\<close> returns without an error, and for every size class \<open>s\<close> from 1 on the
  global list afterwards is the sorted former list: the same elements, each once, in
  strictly ascending address order, under the same count; a class whose list has at most
  one element keeps its head and the links of its elements.
\<close>

theorem defrag_sorts:
  assumes inv: "pool_inv cfg st L G"
  shows "\<exists>st'. defrag cfg st = Some (Inr st') \<and>
     (\<forall>s. 1 \<le> s \<and> s < eTableSize cfg \<longrightarrow>
        chain (mem st') (m_gp (s_pool st' s)) (sort (G s)) \<and>
        mset (sort (G s)) = mset (G s) \<and>
        sorted_wrt (<) (sort (G s)) \<and>
        m_size (s_pool st' s) = m_size (s_pool st s) \<and>
        (length (G s) \<le> 1 \<longrightarrow>
           m_gp (s_pool st' s) = m_gp (s_pool st s) \<and> (\<forall>a\<in>set (G s). mem st' a = mem st a)))"
proof -
  let ?G' = "\<lambda>t. if 1 \<le> t \<and> t < eTableSize cfg then sort (G t) else G t"
  from defrag_inv[OF inv] obtain st' where
    d: "defrag cfg st = Some (Inr st')" and inv': "pool_inv cfg st' L ?G'" by blast
  have cls: "chain (mem st') (m_gp (s_pool st' s)) (sort (G s)) \<and>
        mset (sort (G s)) = mset (G s) \<and>
        sorted_wrt (<) (sort (G s)) \<and>
        m_size (s_pool st' s) = m_size (s_pool st s) \<and>
        (length (G s) \<le> 1 \<longrightarrow>
           m_gp (s_pool st' s) = m_gp (s_pool st s) \<and> (\<forall>a\<in>set (G s). mem st' a = mem st a))"
    if s: "1 \<le> s \<and> s < eTableSize cfg" for s
  proof -
    from s have s': "s < eTableSize cfg" by simp
    note c = pool_inv_G[OF inv s'] and c' = pool_inv_G[OF inv' s']
    from c' s have ch: "chain (mem st') (m_gp (s_pool st' s)) (sort (G s))" by simp
    from c have "distinct (G s)" by (rule chain_distinct)
    then have asc: "sorted_wrt (<) (sort (G s))" by (rule strict_sorted_sort)
    have cnt: "m_size (s_pool st' s) = m_size (s_pool st s)"
      using pool_inv_count[OF inv s'] pool_inv_count[OF inv' s'] s by simp
    have same: "m_gp (s_pool st' s) = m_gp (s_pool st s) \<and> (\<forall>a\<in>set (G s). mem st' a = mem st a)"
      if "length (G s) \<le> 1"
    proof -
      from that have "sort (G s) = G s" by (rule sort_short)
      with ch have ch': "chain (mem st') (m_gp (s_pool st' s)) (G s)" by simp
      from that consider "G s = []" | x where "G s = [x]"
        by (cases "G s"; cases "tl (G s)") auto
      then show ?thesis
      proof cases
        case 1
        with c ch' show ?thesis by simp
      next
        case 2
        with c ch' show ?thesis by simp
      qed
    qed
    from ch asc cnt same show ?thesis by simp
  qed
  with d show ?thesis by blast
qed

text \<open>
  The global list 30, 10, 20 of class 1 comes out as 10, 20, 30; the single element of
  class 2 stays.
\<close>

theorem defrag_sorts_witness:
  "pool_inv cfg_small st_scattered L_empty G_scattered \<and>
   (\<exists>st'. defrag cfg_small st_scattered = Some (Inr st') \<and>
      chain (mem st') (m_gp (s_pool st' 1)) [10, 20, 30] \<and>
      m_size (s_pool st' 1) = 3 \<and>
      m_gp (s_pool st' 2) = Some 40)"
proof -
  have n: "(1::nat) \<le> 1 \<and> 1 < eTableSize cfg_small" "(1::nat) \<le> 2 \<and> 2 < eTableSize cfg_small"
    by (simp_all add: cfg_small_def)
  have v: "sort (G_scattered 1) = [10, 20, 30]" "m_size (s_pool st_scattered 1) = 3"
    "length (G_scattered 2) \<le> 1" "m_gp (s_pool st_scattered 2) = Some 40"
    by (simp_all add: G_scattered_def st_scattered_def)
  from defrag_sorts[OF pool_inv_small_scattered] obtain st' where
    d: "defrag cfg_small st_scattered = Some (Inr st')"
    and a: "\<forall>s. 1 \<le> s \<and> s < eTableSize cfg_small \<longrightarrow>
        chain (mem st') (m_gp (s_pool st' s)) (sort (G_scattered s)) \<and>
        mset (sort (G_scattered s)) = mset (G_scattered s) \<and>
        sorted_wrt (<) (sort (G_scattered s)) \<and>
        m_size (s_pool st' s) = m_size (s_pool st_scattered s) \<and>
        (length (G_scattered s) \<le> 1 \<longrightarrow>
           m_gp (s_pool st' s) = m_gp (s_pool st_scattered s) \<and>
           (\<forall>a\<in>set (G_scattered s). mem st' a = mem st_scattered a))"
    by blast
  have a1: "chain (mem st') (m_gp (s_pool st' 1)) [10, 20, 30] \<and> m_size (s_pool st' 1) = 3"
    using a[rule_format, OF n(1)] by (simp only: v)
  have a2: "m_gp (s_pool st' 2) = Some 40"
    using a[rule_format, OF n(2)] v(3) by (simp only: v(4))
  from a1 a2 d pool_inv_small_scattered show ?thesis by blast
qed

text \<open>
  C6 (amended). For every valid size \<open>s\<close> and every state in which \<^verbatim>\<open>allocate(s)\<close>
  succeeds, the composite \<^verbatim>\<open>deallocate(s, allocate(s))\<close> succeeds and leaves the returned
  address at the head of the thread's list for \<open>s\<close>; a following \<^verbatim>\<open>allocate(s)\<close> returns
  the same address; and when the thread's list for \<open>s\<close> was not empty beforehand, the
  composite restores the whole allocator state.
\<close>

theorem allocate_deallocate_roundtrip:
  assumes "s < eTableSize cfg" "allocate cfg st s blk = Inr (p, st1)"
  shows "\<exists>st2 st3. deallocate cfg st1 s (Some p) = Inr st2 \<and>
           roundtrip cfg st s blk = Inr st2 \<and>
           s_tp st2 s = Some p \<and>
           allocate cfg st2 s blk' = Inr (p, st3) \<and>
           (s_tp st s \<noteq> None \<longrightarrow> st2 = st)"
proof -
  define st2 where "st2 = st1\<lparr>mem := (mem st1)(p := s_tp st1 s), s_tp := (s_tp st1)(s := Some p)\<rparr>"
  have d: "deallocate cfg st1 s (Some p) = Inr st2"
    using assms(1) by (simp add: deallocate_def st2_def)
  then have r: "roundtrip cfg st s blk = Inr st2" using assms(2) by (simp add: roundtrip_def)
  have h: "s_tp st2 s = Some p" by (simp add: st2_def)
  then have a: "\<exists>st3. allocate cfg st2 s blk' = Inr (p, st3)"
    using assms(1) by (simp add: allocate_def)
  have "st2 = st" if "s_tp st s \<noteq> None"
  proof -
    from that obtain q where q: "s_tp st s = Some q" by auto
    with assms have "p = q" "st1 = st\<lparr>s_tp := (s_tp st)(s := mem st q), mem := (mem st)(q := None)\<rparr>"
      by (auto simp: allocate_def)
    moreover have "(s_tp st)(s := Some q) = s_tp st" using q by (metis fun_upd_triv)
    ultimately show ?thesis by (simp add: st2_def)
  qed
  with d r h a show ?thesis by blast
qed

text \<open>The first allocation of class 1: the list was empty and a block at 100 is sliced.\<close>

theorem allocate_deallocate_roundtrip_witness:
  "1 < eTableSize cfg_small \<and>
   (\<exists>st1 st2 st3. allocate cfg_small st_fresh 1 100 = Inr (100, st1) \<and>
      deallocate cfg_small st1 1 (Some 100) = Inr st2 \<and> s_tp st2 1 = Some 100 \<and>
      allocate cfg_small st2 1 200 = Inr (100, st3))"
proof -
  have s: "1 < eTableSize cfg_small" by (simp add: cfg_small_def)
  have "\<not> int 4 \<le> m_size (s_pool st_fresh 1)" by (simp add: st_fresh_def init_state_def)
  from fillPool_block[OF _ s spb_small this, of 1 100]
  obtain st1 where "fillPool cfg_small st_fresh 1 1 100 = Inr (100, st1)"
    by (auto simp: cfg_small_def)
  then have a: "allocate cfg_small st_fresh 1 100 = Inr (100, st1)"
    by (simp add: allocate_def cfg_small_def st_fresh_def init_state_def)
  from allocate_deallocate_roundtrip[OF s a, of 200] a s show ?thesis by blast
qed

text \<open>
  On the fresh allocator the thread's list of class 1 is empty; after the composite it
  holds the whole new block, so the list is not restored.
\<close>

theorem roundtrip_restore_counterexample:
  "roundtrip cfg_small st_fresh 1 100 = Inr st_roundtrip \<and>
   s_tp st_fresh 1 = None \<and> s_tp st_roundtrip 1 = Some 100"
proof -
  have m: "makeSlices (mem_junk(104 := None)) 100 1 4 100 = Some 101"
    using makeSlices_first[of "mem_junk(104 := None)" 100 1 4] by simp
  have c: "\<not> nts cfg_small" "1 < eTableSize cfg_small"
    by (simp_all add: cfg_small_def)
  have e: "\<not> int 4 \<le> m_size (s_pool st_fresh 1)"
    by (simp add: st_fresh_def init_state_def)
  have "slicesPerBlock cfg_small (max 1 (eMinBytes cfg_small mod 65536)) = (4, 1)"
    by (simp add: spb_small)
  from fillPool_block[OF c this e, of 1 100]
  have "allocate cfg_small st_fresh 1 100 =
          Inr (100, (carve cfg_small st_fresh 1 4)
             \<lparr>mem := makeSlices ((mem st_fresh)(blockLink cfg_small 100 := s_blocks st_fresh)) 100 1 4,
              s_tp := (s_tp st_fresh)(1 := makeSlices ((mem st_fresh)(blockLink cfg_small 100 := s_blocks st_fresh)) 100 1 4 100),
              s_blocks := Some 100\<rparr>)"
    by (simp add: allocate_def cfg_small_def st_fresh_def init_state_def)
  then show ?thesis
    by (simp add: roundtrip_def deallocate_def cfg_small_def st_fresh_def init_state_def
        st_roundtrip_def carve_def blockLink_def m addSize_def toSize_def wrapInt_def)
qed

text \<open>
  C7. For every valid size \<open>s\<close> and every chain \<open>xs\<close> of distinct elements, each but the
  last linked to its successor, \<^verbatim>\<open>deallocateList\<close> with the head and the tail of \<open>xs\<close>
  followed by as many \<^verbatim>\<open>allocate(s)\<close> calls as \<open>xs\<close> has elements returns exactly the
  addresses \<open>xs\<close>, in chain order; the thread's list is then what it was before.
\<close>

theorem deallocateList_then_allocate:
  assumes "s < eTableSize cfg" "xs \<noteq> []" "linked (mem st) xs" "distinct xs"
    and "length blks = length xs"
  shows "\<exists>st1 st2. deallocateList cfg st s (Some (hd xs)) (Some (last xs)) = Inr st1 \<and>
           allocateMany cfg st1 s blks = Inr (xs, st2) \<and>
           s_tp st2 s = s_tp st s"
proof -
  define st1 where "st1 = st\<lparr>mem := (mem st)(last xs := s_tp st s),
                             s_tp := (s_tp st)(s := Some (hd xs))\<rparr>"
  have d: "deallocateList cfg st s (Some (hd xs)) (Some (last xs)) = Inr st1"
    using assms(1) by (simp add: deallocateList_def st1_def)
  from assms(2,4) have "last xs \<notin> set (butlast xs)"
    by (metis append_butlast_last_id distinct_append not_distinct_conv_prefix)
  then have lk: "linked (mem st1) xs" using assms(3) by (simp add: st1_def linked_upd_other)
  have hd: "s_tp st1 s = Some (hd xs)" by (simp add: st1_def)
  from allocateMany_linked[OF assms(1,2) lk assms(4) hd assms(5)] obtain st2 where
    "allocateMany cfg st1 s blks = Inr (xs, st2)" "s_tp st2 s = mem st1 (last xs)" by blast
  with d show ?thesis by (auto simp: st1_def)
qed

text \<open>
  The elements 10, 20 and 30 of \<open>st_linked\<close> are handed back as one chain and come out
  of the next three allocations in the same order.
\<close>

theorem deallocateList_then_allocate_witness:
  "1 < eTableSize cfg_small \<and> [10, 20, 30] \<noteq> [] \<and> linked (mem st_linked) [10, 20, 30] \<and>
   distinct [10, 20, 30 :: nat] \<and> length [100, 200, 300 :: nat] = length [10, 20, 30 :: nat] \<and>
   (\<exists>st1 st2. deallocateList cfg_small st_linked 1 (Some 10) (Some 30) = Inr st1 \<and>
      allocateMany cfg_small st1 1 [100, 200, 300] = Inr ([10, 20, 30], st2))"
proof -
  have h: "1 < eTableSize cfg_small" "[10, 20, 30 :: nat] \<noteq> []"
    "linked (mem st_linked) [10, 20, 30]" "distinct [10, 20, 30 :: nat]"
    "length [100, 200, 300 :: nat] = length [10, 20, 30 :: nat]"
    by (simp_all add: cfg_small_def st_linked_def init_state_def)
  from deallocateList_then_allocate[OF h] h show ?thesis by auto
qed

text \<open>
  C8 (amended). The count invariant (for every size class the stored global count is the
  number of elements reachable from the global head) holds in the initial state, and
  every operation of the multi-threaded build, started in a state that satisfies the
  invariant of the data model and in which the elements of each size class, local and
  global together, number at most \<open>2\<^sup>3\<^sup>1 - 1\<close>, returns in a state that satisfies the
  invariant again: \<^verbatim>\<open>allocate\<close>, for a size class of which a block holds at least one
  slice, leaves the global table alone unless it refills from the global pool, and then
  the count drops by the number of elements detached; \<^verbatim>\<open>deallocate\<close> and
  \<^verbatim>\<open>deallocateList\<close>, given elements that are in no free list, leave the global table
  alone; \<^verbatim>\<open>flushPool\<close> raises each count by the number of elements spliced in;
  \<^verbatim>\<open>defrag\<close> keeps every count and does not fail its assertion.
\<close>

theorem count_invariant_preserved:
  assumes inv: "pool_inv cfg st L G" and cfg: "\<not> nts cfg" "eTableSize cfg < 65536"
    and fit: "countsFit cfg L G"
    and s: "s < eTableSize cfg"
    and spb: "slicesPerBlock cfg (max s (eMinBytes cfg mod 65536)) = (nSlices, nWords)"
      "1 \<le> nSlices"
    and fresh: "freshBlock cfg L G blk"
    and a: "\<not> inLists cfg L G a"
    and xs: "xs \<noteq> []" "linked (mem st) xs" "distinct xs" "\<forall>x\<in>set xs. \<not> inLists cfg L G x"
  shows "count_inv cfg (init_state m) (\<lambda>_. []) \<and>
    count_inv cfg st G \<and>
    (\<exists>p st' L' G'. allocate cfg st s blk = Inr (p, st') \<and>
        pool_inv cfg st' L' G' \<and> count_inv cfg st' G' \<and>
        (if s_tp st s = None \<and> int nSlices \<le> m_size (s_pool st s)
         then G' = G(s := drop nSlices (G s)) \<and>
              m_size (s_pool st' s) = m_size (s_pool st s) - int nSlices
         else G' = G \<and> s_pool st' = s_pool st)) \<and>
    (\<exists>st' L'. deallocate cfg st s (Some a) = Inr st' \<and>
        pool_inv cfg st' L' G \<and> count_inv cfg st' G \<and> s_pool st' = s_pool st) \<and>
    (\<exists>st' L'. deallocateList cfg st s (Some (hd xs)) (Some (last xs)) = Inr st' \<and>
        pool_inv cfg st' L' G \<and> count_inv cfg st' G \<and> s_pool st' = s_pool st) \<and>
    (\<exists>st' L' G'. flushPool cfg st = Some st' \<and>
        pool_inv cfg st' L' G' \<and> count_inv cfg st' G' \<and>
        G' = (\<lambda>t. if 1 \<le> t \<and> t < eTableSize cfg then L t @ G t else G t) \<and>
        (\<forall>t. 1 \<le> t \<and> t < eTableSize cfg \<longrightarrow>
           m_size (s_pool st' t) = m_size (s_pool st t) + int (length (L t)))) \<and>
    (\<exists>st' G'. defrag cfg st = Some (Inr st') \<and>
        pool_inv cfg st' L G' \<and> count_inv cfg st' G' \<and>
        G' = (\<lambda>t. if 1 \<le> t \<and> t < eTableSize cfg then sort (G t) else G t) \<and>
        (\<forall>t<eTableSize cfg. m_size (s_pool st' t) = m_size (s_pool st t)))"
proof -
  have c0: "count_inv cfg (init_state m) (\<lambda>_. [])" by (rule count_inv_init)
  have c1: "count_inv cfg st G" using inv by (rule pool_inv_count_inv)
  from fit s have "length (L s) + length (G s) < 2 ^ 31" by (simp add: countsFit_def)
  then have fitG: "length (G s) < 2 ^ 31" by simp
  have al: "\<exists>p st' L' G'. allocate cfg st s blk = Inr (p, st') \<and>
        pool_inv cfg st' L' G' \<and> count_inv cfg st' G' \<and>
        (if s_tp st s = None \<and> int nSlices \<le> m_size (s_pool st s)
         then G' = G(s := drop nSlices (G s)) \<and>
              m_size (s_pool st' s) = m_size (s_pool st s) - int nSlices
         else G' = G \<and> s_pool st' = s_pool st)"
    using allocate_count[OF inv cfg s spb fresh fitG] pool_inv_count_inv by meson
  have de: "\<exists>st' L'. deallocate cfg st s (Some a) = Inr st' \<and>
        pool_inv cfg st' L' G \<and> count_inv cfg st' G \<and> s_pool st' = s_pool st"
  proof -
    let ?st' = "st\<lparr>mem := (mem st)(a := s_tp st s), s_tp := (s_tp st)(s := Some a)\<rparr>"
    have "deallocate cfg st s (Some a) = Inr ?st'" by (rule deallocate_inv(1)[OF inv s a])
    moreover have i: "pool_inv cfg ?st' (L(s := a # L s)) G" by (rule deallocate_inv(2)[OF inv s a])
    moreover have "s_pool ?st' = s_pool st" by simp
    ultimately show ?thesis using pool_inv_count_inv[OF i] by blast
  qed
  have dl: "\<exists>st' L'. deallocateList cfg st s (Some (hd xs)) (Some (last xs)) = Inr st' \<and>
        pool_inv cfg st' L' G \<and> count_inv cfg st' G \<and> s_pool st' = s_pool st"
  proof -
    let ?st' = "st\<lparr>mem := (mem st)(last xs := s_tp st s), s_tp := (s_tp st)(s := Some (hd xs))\<rparr>"
    have "deallocateList cfg st s (Some (hd xs)) (Some (last xs)) = Inr ?st'"
      by (rule deallocateList_inv(1)[OF inv s xs])
    moreover have i: "pool_inv cfg ?st' (L(s := xs @ L s)) G"
      by (rule deallocateList_inv(2)[OF inv s xs])
    moreover have "s_pool ?st' = s_pool st" by simp
    ultimately show ?thesis using pool_inv_count_inv[OF i] by blast
  qed
  have fl: "\<exists>st' L' G'. flushPool cfg st = Some st' \<and>
        pool_inv cfg st' L' G' \<and> count_inv cfg st' G' \<and>
        G' = (\<lambda>t. if 1 \<le> t \<and> t < eTableSize cfg then L t @ G t else G t) \<and>
        (\<forall>t. 1 \<le> t \<and> t < eTableSize cfg \<longrightarrow>
           m_size (s_pool st' t) = m_size (s_pool st t) + int (length (L t)))"
  proof -
    let ?L' = "\<lambda>t. if 1 \<le> t \<and> t < eTableSize cfg then [] else L t"
    let ?G' = "\<lambda>t. if 1 \<le> t \<and> t < eTableSize cfg then L t @ G t else G t"
    from flushPool_inv[OF cfg inv fit] obtain st' where
      f: "flushPool cfg st = Some st'" and i: "pool_inv cfg st' ?L' ?G'" by blast
    have "m_size (s_pool st' t) = m_size (s_pool st t) + int (length (L t))"
      if "1 \<le> t \<and> t < eTableSize cfg" for t
      using that pool_inv_count[OF i, of t] pool_inv_count[OF inv, of t] by simp
    with f i pool_inv_count_inv[OF i] show ?thesis by blast
  qed
  have df: "\<exists>st' G'. defrag cfg st = Some (Inr st') \<and>
        pool_inv cfg st' L G' \<and> count_inv cfg st' G' \<and>
        G' = (\<lambda>t. if 1 \<le> t \<and> t < eTableSize cfg then sort (G t) else G t) \<and>
        (\<forall>t<eTableSize cfg. m_size (s_pool st' t) = m_size (s_pool st t))"
  proof -
    let ?G' = "\<lambda>t. if 1 \<le> t \<and> t < eTableSize cfg then sort (G t) else G t"
    from defrag_inv[OF inv] obtain st' where
      d: "defrag cfg st = Some (Inr st')" and i: "pool_inv cfg st' L ?G'" by blast
    have "m_size (s_pool st' t) = m_size (s_pool st t)" if "t < eTableSize cfg" for t
      using that pool_inv_count[OF i, of t] pool_inv_count[OF inv, of t] by simp
    with d i pool_inv_count_inv[OF i] show ?thesis by blast
  qed
  from c0 c1 al de dl fl df show ?thesis by (intro conjI)
qed

text \<open>
  In the state \<open>st_busy\<close>, with a fresh block at 100, the free address 90 and the linked
  pair 95, 7 (every word of the junk memory points to 7): \<^verbatim>\<open>allocate(1)\<close> refills from
  the five elements of the global pool and leaves one, \<^verbatim>\<open>flushPool\<close> puts the two
  elements of the thread in front of the one of class 2, and \<^verbatim>\<open>defrag\<close> sorts the five
  elements of class 1.
\<close>

theorem count_invariant_preserved_witness:
  "pool_inv cfg_small st_busy L_busy G_busy \<and> \<not> nts cfg_small \<and>
   eTableSize cfg_small < 65536 \<and> countsFit cfg_small L_busy G_busy \<and>
   1 < eTableSize cfg_small \<and>
   slicesPerBlock cfg_small (max 1 (eMinBytes cfg_small mod 65536)) = (4, 1) \<and> (1::nat) \<le> 4 \<and>
   freshBlock cfg_small L_busy G_busy 100 \<and> \<not> inLists cfg_small L_busy G_busy 90 \<and>
   [95, 7] \<noteq> ([] :: nat list) \<and> linked (mem st_busy) [95, 7] \<and> distinct [95, 7 :: nat] \<and>
   \<not> inLists cfg_small L_busy G_busy 95 \<and> \<not> inLists cfg_small L_busy G_busy 7 \<and>
   s_tp st_busy 1 = None \<and> m_size (s_pool st_busy 1) = 5 \<and>
   (\<exists>p st' G'. allocate cfg_small st_busy 1 100 = Inr (p, st') \<and> count_inv cfg_small st' G' \<and>
      G' 1 = [40] \<and> m_size (s_pool st' 1) = 1) \<and>
   (\<exists>st'. deallocate cfg_small st_busy 1 (Some 90) = Inr st' \<and>
      count_inv cfg_small st' G_busy) \<and>
   (\<exists>st'. deallocateList cfg_small st_busy 1 (Some 95) (Some 7) = Inr st' \<and>
      count_inv cfg_small st' G_busy) \<and>
   (\<exists>st' G'. flushPool cfg_small st_busy = Some st' \<and> count_inv cfg_small st' G' \<and>
      G' 2 = [60, 70, 80] \<and> m_size (s_pool st' 2) = 3) \<and>
   (\<exists>st' G'. defrag cfg_small st_busy = Some (Inr st') \<and> count_inv cfg_small st' G' \<and>
      G' 1 = [10, 20, 30, 40, 50] \<and> m_size (s_pool st' 1) = 5)"
proof -
  have c: "\<not> nts cfg_small" "eTableSize cfg_small < 65536" "1 < eTableSize cfg_small"
    by (simp_all add: cfg_small_def)
  have n: "(1::nat) \<le> 4" by simp
  have f: "freshBlock cfg_small L_busy G_busy 100"
    by (simp add: freshBlock_def cfg_small_def all_less_4 L_busy_def G_busy_def blockLink_def)
  have il: "inLists cfg_small L_busy G_busy x \<longleftrightarrow> x \<in> {10, 20, 30, 40, 50, 60, 70, 80}" for x
  proof -
    have "inLists cfg_small L_busy G_busy x \<longleftrightarrow>
            \<not> (\<forall>s<4. \<not> (x \<in> set (L_busy s) \<or> x \<in> set (G_busy s)))"
      by (simp add: inLists_def cfg_small_def)
    also have "\<dots> \<longleftrightarrow> x \<in> {10, 20, 30, 40, 50, 60, 70, 80}"
      unfolding all_less_4 by (auto simp: L_busy_def G_busy_def)
    finally show ?thesis .
  qed
  have a: "\<not> inLists cfg_small L_busy G_busy 90" by (simp add: il)
  have xs: "[95, 7] \<noteq> ([] :: nat list)" "linked (mem st_busy) [95, 7]" "distinct [95, 7 :: nat]"
    "\<forall>x\<in>set [95, 7]. \<not> inLists cfg_small L_busy G_busy x"
    by (simp_all add: il st_busy_def mem_junk_def)
  have ys: "\<not> inLists cfg_small L_busy G_busy 95" "\<not> inLists cfg_small L_busy G_busy 7"
    by (simp_all add: il)
  have v: "s_tp st_busy 1 = None" "m_size (s_pool st_busy 1) = 5"
    "m_size (s_pool st_busy 2) = 1"
    by (simp_all add: st_busy_def)
  have g: "(G_busy(1 := drop 4 (G_busy 1))) 1 = [40]" "L_busy 2 @ G_busy 2 = [60, 70, 80]"
    "sort (G_busy 1) = [10, 20, 30, 40, 50]" "length (L_busy 2) = 2"
    by (simp_all add: G_busy_def L_busy_def)
  have t: "(1::nat) \<le> 1 \<and> 1 < eTableSize cfg_small" "(1::nat) \<le> 2 \<and> 2 < eTableSize cfg_small"
    by (simp_all add: cfg_small_def)
  note th = count_invariant_preserved[OF pool_inv_small_busy c(1,2) fits_small_busy(1) c(3)
      spb_small_1 n f a xs]
  from th obtain p st1 G1 where
    al: "allocate cfg_small st_busy 1 100 = Inr (p, st1)" "count_inv cfg_small st1 G1"
      "if s_tp st_busy 1 = None \<and> int 4 \<le> m_size (s_pool st_busy 1)
       then G1 = G_busy(1 := drop 4 (G_busy 1)) \<and>
            m_size (s_pool st1 1) = m_size (s_pool st_busy 1) - int 4
       else G1 = G_busy \<and> s_pool st1 = s_pool st_busy"
    by blast
  have "s_tp st_busy 1 = None \<and> int 4 \<le> m_size (s_pool st_busy 1)"
    by (simp add: st_busy_def)
  with al(3) have al3: "G1 = G_busy(1 := drop 4 (G_busy 1))"
    "m_size (s_pool st1 1) = m_size (s_pool st_busy 1) - int 4"
    by (simp_all only: if_True)
  have al': "G1 1 = [40]" "m_size (s_pool st1 1) = 1"
    unfolding al3 by (simp_all only: g(1) v(2))
  from th obtain st2 where
    de: "deallocate cfg_small st_busy 1 (Some 90) = Inr st2" "count_inv cfg_small st2 G_busy"
    by blast
  from th obtain st3 where
    dl: "deallocateList cfg_small st_busy 1 (Some 95) (Some 7) = Inr st3"
      "count_inv cfg_small st3 G_busy"
    by force
  from th obtain st4 G4 where
    fl: "flushPool cfg_small st_busy = Some st4" "count_inv cfg_small st4 G4"
      "G4 = (\<lambda>t. if 1 \<le> t \<and> t < eTableSize cfg_small then L_busy t @ G_busy t else G_busy t)"
      "\<forall>t. 1 \<le> t \<and> t < eTableSize cfg_small \<longrightarrow>
         m_size (s_pool st4 t) = m_size (s_pool st_busy t) + int (length (L_busy t))"
    by blast
  from fl(3) t(2) have "G4 2 = L_busy 2 @ G_busy 2" by simp
  then have fl3: "G4 2 = [60, 70, 80]" by (simp only: g(2))
  from fl(4)[rule_format, OF t(2)] have fl4: "m_size (s_pool st4 2) = 3"
    by (simp only: v(3) g(4))
  from th obtain st5 G5 where
    df: "defrag cfg_small st_busy = Some (Inr st5)" "count_inv cfg_small st5 G5"
      "G5 = (\<lambda>t. if 1 \<le> t \<and> t < eTableSize cfg_small then sort (G_busy t) else G_busy t)"
      "\<forall>t<eTableSize cfg_small. m_size (s_pool st5 t) = m_size (s_pool st_busy t)"
    by blast
  from df(3) t(1) have "G5 1 = sort (G_busy 1)" by simp
  then have df3: "G5 1 = [10, 20, 30, 40, 50]" by (simp only: g(3))
  from df(4)[rule_format, OF c(3)] have df4: "m_size (s_pool st5 1) = 5" by (simp only: v(2))
  show ?thesis
    using pool_inv_small_busy c fits_small_busy(1) spb_small_1 n f a xs(1-3) ys v(1,2)
      al(1,2) al' de dl fl(1,2) fl3 fl4 df(1,2) df3 df4
    by (intro conjI exI) assumption+
qed

text \<open>
  The claim without the bound fails: the count is an \<^verbatim>\<open>int\<close>. With \<open>2\<^sup>3\<^sup>1 - 1\<close>
  elements of class 3 in the global pool and one more in the thread's list,
  \<^verbatim>\<open>flushPool\<close> leaves a global list of \<open>2\<^sup>3\<^sup>1\<close> elements under the count \<open>- 2\<^sup>3\<^sup>1\<close>.
\<close>

theorem count_invariant_overflow_counterexample:
  "pool_inv cfg_small (st_big 2147483647) L_one (G_big 2147483647) \<and>
   m_size (s_pool (st_big 2147483647) 3) = 2147483647 \<and>
   flushPool cfg_small (st_big 2147483647) = Some (st_big_flushed 2147483647 (- 2147483648)) \<and>
   chain (mem (st_big_flushed 2147483647 (- 2147483648)))
     (m_gp (s_pool (st_big_flushed 2147483647 (- 2147483648)) 3))
     (10 # sliceAddrs 1000 1 2147483647) \<and>
   length (10 # sliceAddrs 1000 1 2147483647) = 2147483648 \<and>
   m_size (s_pool (st_big_flushed 2147483647 (- 2147483648)) 3) = - 2147483648"
proof -
  have w: "wrapInt (int 2147483647 + 1) = - 2147483648" by (simp add: wrapInt_def)
  have m: "m_size (s_pool (st_big_flushed 2147483647 (- 2147483648)) 3) = - 2147483648"
    by (simp add: st_big_flushed_def)
  have l: "length (10 # sliceAddrs 1000 1 2147483647) = 2147483648"
    by (simp add: length_sliceAddrs)
  have cf: "m_size (s_pool (st_big 2147483647) 3) = 2147483647"
    by (simp add: st_big_def)
  have p: "pool_inv cfg_small (st_big 2147483647) L_one (G_big 2147483647)"
    by (rule pool_inv_big) simp
  have ch: "chain (mem (st_big_flushed 2147483647 (- 2147483648)))
     (m_gp (s_pool (st_big_flushed 2147483647 (- 2147483648)) 3))
     (10 # sliceAddrs 1000 1 2147483647)"
    by (rule chain_big_flushed) simp
  show ?thesis
    using flushPool_big[of 2147483647]
    by (simp only: w m l p ch cf simp_thms)
qed


text \<open>
  C10. \<^verbatim>\<open>cleanup\<close> should release every block of the block chain and leave the
  allocator state as it was: the anchor and all heads and counts. In a release build it
  does. In a debug build it first calls \<^verbatim>\<open>memoryInThreadFreeList\<close>, which sets the
  thread's heads to \<^verbatim>\<open>nullptr\<close>: after one \<^verbatim>\<open>allocate(8)\<close> and the matching
  \<^verbatim>\<open>deallocate\<close> the assertion holds, the one block is released, the anchor still
  points to it, and the head of class 8 is gone.
\<close>

theorem cleanup_clears_heads:
  "roundtrip cfg_large st_fresh 8 100 = Inr (slicedState cfg_large mem_junk 8 100) \<and>
   cleanup cfg_large (slicedState cfg_large mem_junk 8 100) =
     Some (Inr (clearHeads cfg_large (slicedState cfg_large mem_junk 8 100), [100])) \<and>
   s_tp (slicedState cfg_large mem_junk 8 100) 8 = Some 100 \<and>
   s_tp (clearHeads cfg_large (slicedState cfg_large mem_junk 8 100)) 8 = None \<and>
   s_blocks (clearHeads cfg_large (slicedState cfg_large mem_junk 8 100)) = Some 100"
proof -
  have c: "\<not> nts cfg_large" "8 < eTableSize cfg_large" "eTableSize cfg_large \<le> 65536"
    "debug cfg_large" "(0::nat) < 8" "(1::nat) \<le> 1023" "(2::nat) \<le> 1023"
    "8 = 1 * ptrSize cfg_large"
    by (simp_all add: cfg_large_def)
  have b: "(1::nat) * 1023 < 2 ^ 31" "(1023::nat) * 8 < 2 ^ 64"
    "1 * 1023 * ptrSize cfg_large < 2 ^ 64"
    by (simp_all add: cfg_large_def)
  have r: "roundtrip cfg_large st_fresh 8 100 = Inr (slicedState cfg_large mem_junk 8 100)"
    unfolding st_fresh_def by (rule roundtrip_fresh[OF c(1,2,3) spb_large_8 c(6) b(1)])
  have h: "s_tp (slicedState cfg_large mem_junk 8 100) 8 = Some 100"
    "s_tp (clearHeads cfg_large (slicedState cfg_large mem_junk 8 100)) 8 = None"
    "s_blocks (clearHeads cfg_large (slicedState cfg_large mem_junk 8 100)) = Some 100"
    unfolding slicedState_eq[OF spb_large_8] by (simp_all add: clearHeads_def cfg_large_def)
  from cleanup_slicedState(2)[OF c(4,5,2) spb_large_8 c(7) b(2,3) c(8), of mem_junk 100] r h
  show ?thesis by simp
qed

end
